theory Spec2Isabelle
  imports Main "HOL-Library.Word" "HOL-Library.Multiset"
begin

section \<open>Data model (thread\_pool.h)\<close>

text \<open>
  \<open>size_t\<close> is taken as the 64-bit unsigned integer of an LP64 platform: increments and
  decrements of the atomic counters wrap around modulo \<open>2 ^ 64\<close>.
\<close>

type_synonym size_t = "64 word"

text \<open>\<open>enum class Priority { HIGH = 0, MEDIUM = 1, LOW = 2 }\<close>\<close>

datatype Priority = HIGH | MEDIUM | LOW

fun priority_value :: "Priority \<Rightarrow> nat" where
  "priority_value HIGH = 0"
| "priority_value MEDIUM = 1"
| "priority_value LOW = 2"

text \<open>The exceptions the pool and the standard library raise.\<close>

datatype error = invalid_argument string | runtime_error string | future_error

text \<open>
  The user's callable with its arguments bound (\<open>std::bind(f, args...)\<close>) is opaque to the
  pool; all the pool can observe of one invocation is whether it returns a value or throws.
\<close>

datatype callable = Returns int | Throws string

text \<open>
  The shared state behind a \<open>std::future\<close> / \<open>std::packaged_task\<close> pair. The shared
  states live on the heap (\<open>std::make_shared\<close>); the heap is the list \<open>futures\<close> below
  and a result handle is an index into it. \<open>BrokenPromise\<close> is the state ready with
  \<open>std::future_error\<close> (\<open>broken_promise\<close>) that the destructor of a packaged task leaves
  when the task never ran.
\<close>

datatype shared_state = NotReady | HasValue int | HasException string | BrokenPromise

text \<open>
  The task envelope is the closure \<open>wrapped_task = [this, task]() { ... }\<close> of \<open>submit\<close>:
  it captures the packaged task, that is the bound callable and the address of its shared
  state.
\<close>

record envelope =
  shared :: nat
  bound :: callable

subsection \<open>WorkStealingQueue\<close>

text \<open>
  \<open>std::deque<std::function<void()>> queue_\<close> is a list whose head is the deque's front.
  Every operation holds the deque's mutex for its whole body, so each is one atomic
  function. \<open>pop\<close> and \<open>steal\<close> return \<open>None\<close> where the source returns false (the
  deque is left as it was) and the task moved out together with the remaining deque where
  it returns true.
\<close>

definition push :: "'a \<Rightarrow> 'a list \<Rightarrow> 'a list" where
  "push task queue = task # queue"

definition pop :: "'a list \<Rightarrow> ('a \<times> 'a list) option" where
  "pop queue = (if queue = [] then None else Some (hd queue, tl queue))"

definition steal :: "'a list \<Rightarrow> ('a \<times> 'a list) option" where
  "steal queue = (if queue = [] then None else Some (last queue, butlast queue))"

definition wsq_size :: "'a list \<Rightarrow> nat" where
  "wsq_size queue = length queue"

definition wsq_empty :: "'a list \<Rightarrow> bool" where
  "wsq_empty queue = (queue = [])"

text \<open>
  A history of deque operations, for stating what the owner and a thief observe over
  whole sequences of calls: each operation yields its out-parameter (if any).
\<close>

datatype 'a wsq_op = Push 'a | Pop | Steal

fun wsq_apply :: "'a wsq_op \<Rightarrow> 'a list \<Rightarrow> 'a option \<times> 'a list" where
  "wsq_apply (Push x) q = (None, push x q)"
| "wsq_apply Pop q = (case pop q of None \<Rightarrow> (None, q) | Some (x, q') \<Rightarrow> (Some x, q'))"
| "wsq_apply Steal q = (case steal q of None \<Rightarrow> (None, q) | Some (x, q') \<Rightarrow> (Some x, q'))"

fun wsq_run :: "'a wsq_op list \<Rightarrow> 'a list \<Rightarrow> 'a list" where
  "wsq_run [] q = q"
| "wsq_run (c # cs) q = wsq_run cs (snd (wsq_apply c q))"

text \<open>
  Push stamps: the \<open>k\<close>-th push of a history pushes the pair \<open>(k, x)\<close>, so that the age of
  an element can be read off the deque.
\<close>

fun stamp :: "nat \<Rightarrow> 'a wsq_op list \<Rightarrow> (nat \<times> 'a) wsq_op list" where
  "stamp k [] = []"
| "stamp k (Push x # cs) = Push (k, x) # stamp (Suc k) cs"
| "stamp k (Pop # cs) = Pop # stamp k cs"
| "stamp k (Steal # cs) = Steal # stamp k cs"

text \<open>A stamped deque holds its elements newest first when the stamps fall from the front.\<close>

definition newest_first :: "(nat \<times> 'a) list \<Rightarrow> bool" where
  "newest_first q = sorted_wrt (\<lambda>a b. fst b < fst a) q"

text \<open>The loops \<open>while (q.pop(t)) out.push_back(t)\<close> and \<open>while (q.steal(t)) out.push_back(t)\<close>.\<close>

function pop_all :: "'a list \<Rightarrow> 'a list" where
  "pop_all q = (case pop q of None \<Rightarrow> [] | Some (y, q') \<Rightarrow> y # pop_all q')"
  by pat_completeness auto
termination
  by (relation "measure length") (auto simp: pop_def split: if_splits)

declare pop_all.simps [simp del]

function steal_all :: "'a list \<Rightarrow> 'a list" where
  "steal_all q = (case steal q of None \<Rightarrow> [] | Some (y, q') \<Rightarrow> y # steal_all q')"
  by pat_completeness auto
termination
  by (relation "measure length") (auto simp: steal_def split: if_splits)

declare steal_all.simps [simp del]

subsection \<open>ThreadPool\<close>

text \<open>
  \<open>struct PriorityTask\<close> with its \<open>operator<\<close> (\<open>priority > other.priority\<close>), and
  \<open>std::priority_queue<PriorityTask>\<close>, whose top is an element that is not less than
  any other. The standard leaves the order among equal elements to the heap algorithm; the
  list below keeps the top at its head and equal elements in insertion order, which need
  not be the order in which a binary heap hands them out. Nothing proved below depends on
  which of several elements of equal priority is at the top.
\<close>

record PriorityTask =
  priority :: Priority
  task :: envelope

definition pt_less :: "PriorityTask \<Rightarrow> PriorityTask \<Rightarrow> bool" where
  "pt_less a other = (priority_value (priority a) > priority_value (priority other))"

fun pq_push :: "PriorityTask \<Rightarrow> PriorityTask list \<Rightarrow> PriorityTask list" where
  "pq_push x [] = [x]"
| "pq_push x (y # ys) = (if pt_less y x then x # y # ys else y # pq_push x ys)"

definition pq_top :: "PriorityTask list \<Rightarrow> PriorityTask" where
  "pq_top q = hd q"

definition pq_pop :: "PriorityTask list \<Rightarrow> PriorityTask list" where
  "pq_pop q = tl q"

text \<open>
  A worker thread (\<open>std::thread\<close> in \<open>workers_\<close>) is represented by where it stands in
  \<open>worker_thread\<close>: at the top of the loop about to call \<open>get_task\<close>, holding a task it
  is executing, inside \<open>global_cv_.wait_for\<close>, or past the loop (finished, so that
  \<open>join\<close> returns).
\<close>

datatype worker = AtTop | Running envelope | Parked | Exited

text \<open>
  The members of \<open>class ThreadPool\<close> that carry state. Isabelle keeps names that end in
  an underscore for internal use, so each member is written with a prime after its name.
\<close>

record ThreadPool =
  workers_' :: "worker list"
  local_queues_' :: "envelope list list"
  global_queue_' :: "PriorityTask list"
  stop_' :: bool
  immediate_stop_' :: bool
  active_tasks_' :: size_t
  pending_tasks_' :: size_t
  tasks_completed_' :: size_t
  tasks_stolen_' :: size_t
  total_tasks_submitted_' :: size_t

record Stats =
  tasks_completed :: size_t
  tasks_stolen :: size_t
  total_tasks_submitted :: size_t

text \<open>
  What lives outside any pool object: the function-local
  \<open>static std::atomic<size_t> counter{0}\<close> of \<open>submit\<close> (one object per instantiation
  \<open><F, Args...>\<close> of the member template; instantiations are numbered) and the heap of
  shared states.
\<close>

record process =
  counter :: "nat \<Rightarrow> size_t"
  futures :: "shared_state list"

text \<open>The constructor (thread\_pool.cpp, lines 5-26).\<close>

definition ThreadPool_ctor :: "size_t \<Rightarrow> error + ThreadPool" where
  "ThreadPool_ctor num_threads =
     (if num_threads = 0
      then Inl (invalid_argument ''Thread pool must have at least one thread'')
      else Inr \<lparr>workers_' = replicate (unat num_threads) AtTop,
                local_queues_' = replicate (unat num_threads) [],
                global_queue_' = [],
                stop_' = False,
                immediate_stop_' = False,
                active_tasks_' = 0,
                pending_tasks_' = 0,
                tasks_completed_' = 0,
                tasks_stolen_' = 0,
                total_tasks_submitted_' = 0\<rparr>)"

definition num_threads :: "ThreadPool \<Rightarrow> size_t" where
  "num_threads p = of_nat (length (workers_' p))"

definition active_tasks :: "ThreadPool \<Rightarrow> size_t" where
  "active_tasks p = active_tasks_' p"

definition pending_tasks :: "ThreadPool \<Rightarrow> size_t" where
  "pending_tasks p = pending_tasks_' p"

definition get_stats :: "ThreadPool \<Rightarrow> Stats" where
  "get_stats p = \<lparr>tasks_completed = tasks_completed_' p,
                  tasks_stolen = tasks_stolen_' p,
                  total_tasks_submitted = total_tasks_submitted_' p\<rparr>"

text \<open>
  \<open>submit(priority, f, args...)\<close> (thread\_pool.h, lines 149-192). \<open>inst\<close> names the
  template instantiation the call goes through. The call is the stop check (lines 155-157)
  followed by \<open>submit_rest\<close>, the rest of the body (lines 159-191), which yields the handle
  of the returned future. No lock spans the two parts. The result of \<open>submit\<close> is the
  exception thrown or the handle, with the process and pool states after the call.
\<close>

definition submit_rest ::
  "Priority \<Rightarrow> nat \<Rightarrow> callable \<Rightarrow> process \<Rightarrow> ThreadPool \<Rightarrow> nat \<times> process \<times> ThreadPool" where
  "submit_rest prio inst f g p =
     (let result = length (futures g);
          g1 = g\<lparr>futures := futures g @ [NotReady]\<rparr>;
          wrapped_task = \<lparr>shared = result, bound = f\<rparr>;
          p1 = p\<lparr>active_tasks_' := active_tasks_' p + 1,
                 pending_tasks_' := pending_tasks_' p + 1,
                 total_tasks_submitted_' := total_tasks_submitted_' p + 1\<rparr>
      in if prio = HIGH
         then (result, g1,
               p1\<lparr>global_queue_' :=
                    pq_push \<lparr>priority = prio, task = wrapped_task\<rparr> (global_queue_' p1)\<rparr>)
         else
           let thread_id = unat (counter g1 inst) mod length (workers_' p1);
               g2 = g1\<lparr>counter := (counter g1)(inst := counter g1 inst + 1)\<rparr>
           in (result, g2,
               p1\<lparr>local_queues_' :=
                    (local_queues_' p1)[thread_id := push wrapped_task (local_queues_' p1 ! thread_id)]\<rparr>))"

definition submit ::
  "Priority \<Rightarrow> nat \<Rightarrow> callable \<Rightarrow> process \<Rightarrow> ThreadPool \<Rightarrow> (error + nat) \<times> process \<times> ThreadPool" where
  "submit prio inst f g p =
     (if stop_' p \<or> immediate_stop_' p
      then (Inl (runtime_error ''Cannot submit task to stopped thread pools''), g, p)
      else case submit_rest prio inst f g p of (result, g', p') \<Rightarrow> (Inr result, g', p'))"

text \<open>
  \<open>try_steal\<close> (thread\_pool.cpp, lines 85-108). \<open>start\<close> is the value drawn by
  \<open>dist(gen_)\<close>; the loop over \<open>i = 0 .. num_threads - 1\<close> is \<open>steal_loop\<close> over the
  list of the remaining values of \<open>i\<close>.
\<close>

fun steal_loop ::
  "nat \<Rightarrow> nat \<Rightarrow> nat \<Rightarrow> nat list \<Rightarrow> envelope list list \<Rightarrow> (envelope \<times> envelope list list) option" where
  "steal_loop thread_id start n [] qs = None"
| "steal_loop thread_id start n (i # rest) qs =
     (let target = (start + i) mod n
      in if target = thread_id then steal_loop thread_id start n rest qs
         else case steal (qs ! target) of
                Some (t, q') \<Rightarrow> Some (t, qs[target := q'])
              | None \<Rightarrow> steal_loop thread_id start n rest qs)"

definition try_steal :: "nat \<Rightarrow> nat \<Rightarrow> ThreadPool \<Rightarrow> (envelope \<times> ThreadPool) option" where
  "try_steal thread_id start p =
     (let n = length (workers_' p)
      in if n = 1 then None
         else case steal_loop thread_id start n [0..<n] (local_queues_' p) of
                None \<Rightarrow> None
              | Some (t, qs) \<Rightarrow> Some (t, p\<lparr>local_queues_' := qs\<rparr>))"

text \<open>
  \<open>get_task\<close> (thread\_pool.cpp, lines 63-83): \<open>None\<close> where the source returns false,
  the task moved out where it returns true, with the pool after the call.
\<close>

definition get_task :: "nat \<Rightarrow> nat \<Rightarrow> ThreadPool \<Rightarrow> envelope option \<times> ThreadPool" where
  "get_task thread_id start p =
     (if global_queue_' p \<noteq> []
      then (Some (task (pq_top (global_queue_' p))), p\<lparr>global_queue_' := pq_pop (global_queue_' p)\<rparr>)
      else case pop (local_queues_' p ! thread_id) of
             Some (t, q') \<Rightarrow> (Some t, p\<lparr>local_queues_' := (local_queues_' p)[thread_id := q']\<rparr>)
           | None \<Rightarrow>
               (case try_steal thread_id start p of
                  Some (t, p') \<Rightarrow> (Some t, p'\<lparr>tasks_stolen_' := tasks_stolen_' p' + 1\<rparr>)
                | None \<Rightarrow> (None, p)))"

text \<open>
  The source order as the specification words it, to be compared with \<open>get_task\<close>:
  the global heap first if it is non-empty; else the worker's own deque, from its front;
  else the first deque in the order \<open>start, start + 1, ...\<close> (modulo the number of
  workers, all of them visited, the worker's own skipped) that is non-empty, from its back,
  counting one more stolen task; else nothing.
\<close>

definition scan_order :: "nat \<Rightarrow> nat \<Rightarrow> nat list" where
  "scan_order start n = map (\<lambda>i. (start + i) mod n) [0..<n]"

definition get_task_spec :: "nat \<Rightarrow> nat \<Rightarrow> ThreadPool \<Rightarrow> envelope option \<times> ThreadPool" where
  "get_task_spec i start p =
     (if global_queue_' p \<noteq> []
      then (Some (task (hd (global_queue_' p))), p\<lparr>global_queue_' := tl (global_queue_' p)\<rparr>)
      else if local_queues_' p ! i \<noteq> []
      then (Some (hd (local_queues_' p ! i)),
            p\<lparr>local_queues_' := (local_queues_' p)[i := tl (local_queues_' p ! i)]\<rparr>)
      else case find (\<lambda>t. t \<noteq> i \<and> local_queues_' p ! t \<noteq> [])
                     (scan_order start (length (workers_' p))) of
             Some t \<Rightarrow>
               (Some (last (local_queues_' p ! t)),
                p\<lparr>local_queues_' := (local_queues_' p)[t := butlast (local_queues_' p ! t)],
                  tasks_stolen_' := tasks_stolen_' p + 1\<rparr>)
           | None \<Rightarrow> (None, p))"

text \<open>
  \<open>std::packaged_task::operator()\<close>: runs the stored callable and makes the shared state
  ready with its value or with the exception it threw; it throws \<open>std::future_error\<close>
  itself when the shared state has already been satisfied.
\<close>

definition packaged_task_call :: "envelope \<Rightarrow> process \<Rightarrow> error + process" where
  "packaged_task_call e g =
     (if shared e < length (futures g) \<and> futures g ! shared e = NotReady
      then Inr (g\<lparr>futures := (futures g)[shared e :=
                  (case bound e of Returns v \<Rightarrow> HasValue v | Throws x \<Rightarrow> HasException x)]\<rparr>)
      else Inl future_error)"

text \<open>
  Running the envelope: the body of the \<open>wrapped_task\<close> lambda (thread\_pool.h, lines
  165-174). The first component is the exception that leaves the lambda, if any:
  \<open>catch (...)\<close> swallows whatever \<open>(*task)()\<close> throws.
\<close>

definition wrapped_task :: "envelope \<Rightarrow> process \<Rightarrow> ThreadPool \<Rightarrow> error option \<times> process \<times> ThreadPool" where
  "wrapped_task e g p =
     (let g' = (case packaged_task_call e g of Inr g1 \<Rightarrow> g1 | Inl _ \<Rightarrow> g)
      in (None, g',
          p\<lparr>active_tasks_' := active_tasks_' p - 1,
            pending_tasks_' := pending_tasks_' p - 1,
            tasks_completed_' := tasks_completed_' p + 1\<rparr>))"

text \<open>
  The two places where \<open>worker_thread\<close> (thread\_pool.cpp, lines 32-61) decides whether
  to leave its loop, before and after the wait: lines 39-45 and 52-58.
\<close>

definition leaves_loop :: "ThreadPool \<Rightarrow> bool" where
  "leaves_loop p = (if immediate_stop_' p then True
                    else if stop_' p \<and> pending_tasks_' p = 0 then True else False)"

text \<open>
  \<open>shutdown_graceful\<close> up to its join loop (lines 126-131) and \<open>shutdown_immediate\<close> up
  to its join loop (lines 141-147): the flag says whether the call goes on to join the
  workers (True) or has returned early (False).
\<close>

definition shutdown_graceful_begin :: "ThreadPool \<Rightarrow> bool \<times> ThreadPool" where
  "shutdown_graceful_begin p =
     (if stop_' p \<or> immediate_stop_' p then (False, p) else (True, p\<lparr>stop_' := True\<rparr>))"

definition shutdown_immediate_begin :: "ThreadPool \<Rightarrow> bool \<times> ThreadPool" where
  "shutdown_immediate_begin p =
     (if immediate_stop_' p then (False, p)
      else (True, p\<lparr>immediate_stop_' := True, stop_' := True\<rparr>))"

text \<open>Both join loops return once every worker has left \<open>worker_thread\<close>.\<close>

definition joined :: "ThreadPool \<Rightarrow> bool" where
  "joined p = list_all (\<lambda>w. w = Exited) (workers_' p)"

text \<open>
  What \<open>shutdown_immediate\<close> does after the join (lines 155-168): the drain loops and the
  reset of \<open>pending_tasks_\<close>. An envelope popped there is destroyed without having run, and
  with it its packaged task, whose destructor makes the shared state ready with
  \<open>broken_promise\<close>.
\<close>

definition abandon :: "envelope \<Rightarrow> process \<Rightarrow> process" where
  "abandon e g =
     (if shared e < length (futures g) \<and> futures g ! shared e = NotReady
      then g\<lparr>futures := (futures g)[shared e := BrokenPromise]\<rparr> else g)"

fun abandon_all :: "envelope list \<Rightarrow> process \<Rightarrow> process" where
  "abandon_all [] g = g"
| "abandon_all (e # es) g = abandon_all es (abandon e g)"

function drain_global :: "PriorityTask list \<Rightarrow> PriorityTask list" where
  "drain_global q = (if q \<noteq> [] then drain_global (pq_pop q) else q)"
  by pat_completeness auto
termination
  by (relation "measure length") (auto simp: pq_pop_def)

declare drain_global.simps [simp del]

function drain_local :: "envelope list \<Rightarrow> envelope list" where
  "drain_local q = (case pop q of Some (dummy, q') \<Rightarrow> drain_local q' | None \<Rightarrow> q)"
  by pat_completeness auto
termination
  by (relation "measure length") (auto simp: pop_def split: if_splits)

declare drain_local.simps [simp del]

definition shutdown_immediate_end :: "ThreadPool \<Rightarrow> ThreadPool" where
  "shutdown_immediate_end p =
     p\<lparr>global_queue_' := drain_global (global_queue_' p),
       local_queues_' := map drain_local (local_queues_' p),
       pending_tasks_' := 0\<rparr>"

subsection \<open>The running system\<close>

text \<open>
  The threads of a program with one pool interleave. The state is the pool object, the
  process state, the \<open>submit\<close> calls that have passed their stop check and not yet run
  the rest of their body (\<open>inflight\<close>), and the position of the lifecycle call that is
  joining the workers, if any: \<open>Outside\<close> when none is, else blocked in the join loop of
  \<open>shutdown_graceful\<close> or of \<open>shutdown_immediate\<close>. At most one call joins at a time
  (two concurrent \<open>join\<close>s of one \<open>std::thread\<close> would be a data race); a lifecycle
  call that returns at its first test joins nothing and can come from any thread at any
  time.
\<close>

datatype caller = Outside | InGracefulJoin | InImmediateJoin

record world =
  proc :: process
  pool :: ThreadPool
  inflight :: "(Priority \<times> nat \<times> callable) list"
  lifecycle :: caller

text \<open>
  The atomic actions. \<open>Submit\<close>: a whole \<open>submit\<close> call with nothing in between its
  parts. \<open>SubmitEnter\<close>: a \<open>submit\<close> call runs its stop check, and throws or goes on.
  \<open>SubmitLeave k\<close>: the \<open>k\<close>-th of the calls that went on runs the rest of its body.
  \<open>Poll i start\<close>: worker \<open>i\<close> calls \<open>get_task\<close> (the generator
  yielding \<open>start\<close>) and, with no task, runs the checks before the wait. \<open>Run i\<close>:
  worker \<open>i\<close> runs its task to the end. \<open>Wake i\<close>: \<open>wait_for\<close> returns in worker
  \<open>i\<close> (notified or after its 10 ms) and the checks after the wait run.
  \<open>GracefulJoined\<close> and \<open>ImmediateJoined\<close>: the join loop of the pending lifecycle
  call ends and the call runs to its return; for \<open>shutdown_immediate\<close> that is the drain
  loops and the reset of \<open>pending_tasks_\<close>, taken as one action: no worker is left then, and
  the only calls that could fall between its parts are \<open>submit\<close> calls already past their
  stop check, so what is proved of the drained state is proved for the case that there is
  none. \<open>WaitAll\<close>: a \<open>wait_all\<close> call returns.
  \<open>ShutdownGraceful\<close> and \<open>ShutdownImmediate\<close>: the call up to its join loop, or the
  whole call when it returns at its first test. An action that cannot happen in a state has
  no successor (\<open>None\<close>); so has a task that lets an exception escape into
  \<open>worker_thread\<close>, which would end the program.
\<close>

datatype event =
    Submit Priority nat callable
  | SubmitEnter Priority nat callable
  | SubmitLeave nat
  | Poll nat nat
  | Run nat
  | Wake nat
  | WaitAll
  | ShutdownGraceful
  | GracefulJoined
  | ShutdownImmediate
  | ImmediateJoined

fun step :: "event \<Rightarrow> world \<Rightarrow> world option" where
  "step (Submit prio inst f) w =
     (case submit prio inst f (proc w) (pool w) of
        (r, g', p') \<Rightarrow> Some (w\<lparr>proc := g', pool := p'\<rparr>))"
| "step (SubmitEnter prio inst f) w =
     (if stop_' (pool w) \<or> immediate_stop_' (pool w) then Some w
      else Some (w\<lparr>inflight := inflight w @ [(prio, inst, f)]\<rparr>))"
| "step (SubmitLeave k) w =
     (if k < length (inflight w)
      then case inflight w ! k of
             (prio, inst, f) \<Rightarrow>
               (case submit_rest prio inst f (proc w) (pool w) of
                  (result, g', p') \<Rightarrow>
                    Some (w\<lparr>proc := g', pool := p',
                            inflight := take k (inflight w) @ drop (Suc k) (inflight w)\<rparr>))
      else None)"
| "step (Poll i start) w =
     (let p = pool w
      in if i < length (workers_' p) \<and> start < length (workers_' p) \<and> workers_' p ! i = AtTop
         then case get_task i start p of
                (Some t, p') \<Rightarrow> Some (w\<lparr>pool := p'\<lparr>workers_' := (workers_' p')[i := Running t]\<rparr>\<rparr>)
              | (None, p') \<Rightarrow>
                  Some (w\<lparr>pool := p'\<lparr>workers_' :=
                          (workers_' p')[i := (if leaves_loop p' then Exited else Parked)]\<rparr>\<rparr>)
         else None)"
| "step (Run i) w =
     (let p = pool w
      in if i < length (workers_' p)
         then case workers_' p ! i of
                Running t \<Rightarrow>
                  (case wrapped_task t (proc w) p of
                     (None, g', p') \<Rightarrow>
                       Some (w\<lparr>proc := g', pool := p'\<lparr>workers_' := (workers_' p')[i := AtTop]\<rparr>\<rparr>)
                   | (Some x, g', p') \<Rightarrow> None)
              | _ \<Rightarrow> None
         else None)"
| "step (Wake i) w =
     (let p = pool w
      in if i < length (workers_' p) \<and> workers_' p ! i = Parked
         then Some (w\<lparr>pool := p\<lparr>workers_' :=
                      (workers_' p)[i := (if leaves_loop p then Exited else AtTop)]\<rparr>\<rparr>)
         else None)"
| "step WaitAll w = (if pending_tasks_' (pool w) = 0 then Some w else None)"
| "step ShutdownGraceful w =
     (case shutdown_graceful_begin (pool w) of
        (True, p') \<Rightarrow>
          if lifecycle w = Outside then Some (w\<lparr>pool := p', lifecycle := InGracefulJoin\<rparr>)
          else None
      | (False, p') \<Rightarrow> Some (w\<lparr>pool := p'\<rparr>))"
| "step GracefulJoined w =
     (if lifecycle w = InGracefulJoin \<and> joined (pool w)
      then Some (w\<lparr>lifecycle := Outside\<rparr>) else None)"
| "step ShutdownImmediate w =
     (case shutdown_immediate_begin (pool w) of
        (True, p') \<Rightarrow>
          if lifecycle w = Outside then Some (w\<lparr>pool := p', lifecycle := InImmediateJoin\<rparr>)
          else None
      | (False, p') \<Rightarrow> Some (w\<lparr>pool := p'\<rparr>))"
| "step ImmediateJoined w =
     (if lifecycle w = InImmediateJoin \<and> joined (pool w)
      then Some (w\<lparr>proc := abandon_all (map task (global_queue_' (pool w)) @
                                         concat (local_queues_' (pool w))) (proc w),
                   pool := shutdown_immediate_end (pool w), lifecycle := Outside\<rparr>)
      else None)"

fun exec :: "event list \<Rightarrow> world \<Rightarrow> world option" where
  "exec [] w = Some w"
| "exec (e # es) w = (case step e w of None \<Rightarrow> None | Some w' \<Rightarrow> exec es w')"

text \<open>
  The process at program start: every static counter is zero-initialised and no shared
  state has been allocated.
\<close>

definition process_start :: process where
  "process_start = \<lparr>counter = (\<lambda>inst. 0), futures = []\<rparr>"

text \<open>The program right after the constructor returned the pool \<open>p\<close>.\<close>

definition boot :: "process \<Rightarrow> ThreadPool \<Rightarrow> world" where
  "boot g p = \<lparr>proc = g, pool = p, inflight = [], lifecycle = Outside\<rparr>"



text \<open>A program with several pool objects: they share the process state.\<close>

record program =
  statics :: process
  pools :: "ThreadPool list"

definition submit_on :: "nat \<Rightarrow> Priority \<Rightarrow> nat \<Rightarrow> callable \<Rightarrow> program \<Rightarrow> (error + nat) \<times> program" where
  "submit_on a prio inst f P =
     (case submit prio inst f (statics P) (pools P ! a) of
        (r, g', p') \<Rightarrow> (r, \<lparr>statics = g', pools = (pools P)[a := p']\<rparr>))"

subsection \<open>Observations on states\<close>

text \<open>The task a worker holds, if any, and the number of workers that are executing one.\<close>

fun held :: "worker \<Rightarrow> envelope list" where
  "held (Running t) = [t]"
| "held AtTop = []"
| "held Parked = []"
| "held Exited = []"

definition executing :: "ThreadPool \<Rightarrow> nat" where
  "executing p = length (concat (map held (workers_' p)))"

text \<open>All envelopes the pool holds: in the heap, in the deques and in the workers' hands.\<close>

definition envelopes :: "ThreadPool \<Rightarrow> envelope list" where
  "envelopes p =
     map task (global_queue_' p) @ concat (local_queues_' p) @ concat (map held (workers_' p))"

text \<open>Every envelope of the pool has a shared state of its own, and it is not yet ready.\<close>

definition handles_ok :: "world \<Rightarrow> bool" where
  "handles_ok w =
     (distinct (map shared (envelopes (pool w))) \<and>
      list_all (\<lambda>e. shared e < length (futures (proc w)) \<and> futures (proc w) ! shared e = NotReady)
        (envelopes (pool w)))"

text \<open>
  The pool is stopped for good: both flags are set, all workers have left, nothing is
  queued and nothing is pending.
\<close>

definition stopped :: "ThreadPool \<Rightarrow> bool" where
  "stopped p =
     (immediate_stop_' p \<and> stop_' p \<and> joined p \<and> global_queue_' p = [] \<and>
      list_all (\<lambda>q. q = []) (local_queues_' p) \<and> pending_tasks_' p = 0)"


text \<open>The counters along a trace of at most \<open>k\<close> actions.\<close>

definition counted :: "nat \<Rightarrow> ThreadPool \<Rightarrow> bool" where
  "counted k p =
     (unat (tasks_completed_' p) + executing p \<le> k \<and>
      unat (tasks_stolen_' p) \<le> unat (tasks_completed_' p) + executing p)"

section \<open>The local deque\<close>

lemma pop_push: "pop (push x q) = Some (x, q)"
  by (simp add: pop_def push_def)

lemma pop_all_eq: "pop_all q = q"
proof (induction q)
  case Nil
  show ?case by (simp add: pop_all.simps pop_def)
next
  case (Cons x q)
  then show ?case by (subst pop_all.simps) (simp add: pop_def)
qed

lemma steal_all_eq: "steal_all q = rev q"
proof (induction q rule: rev_induct)
  case Nil
  show ?case by (simp add: steal_all.simps steal_def)
next
  case (snoc x q)
  then show ?case by (subst steal_all.simps) (simp add: steal_def)
qed

lemma wsq_run_pushes: "wsq_run (map Push xs) q = rev xs @ q"
  by (induction xs arbitrary: q) (simp_all add: push_def)

lemma newest_first_tl: "newest_first q \<Longrightarrow> newest_first (tl q)"
  by (cases q) (simp_all add: newest_first_def)

lemma newest_first_butlast: "newest_first q \<Longrightarrow> newest_first (butlast q)"
  unfolding newest_first_def
  by (induction q rule: rev_induct) (simp_all add: sorted_wrt_append)

lemma wsq_apply_subset: "set (snd (wsq_apply c q)) \<subseteq> (case c of Push x \<Rightarrow> insert x (set q) | _ \<Rightarrow> set q)"
  by (cases c) (auto simp: push_def pop_def steal_def dest: in_set_butlastD list.set_sel(2) split: if_splits)

lemma snd_wsq_apply_Pop: "snd (wsq_apply Pop q) = tl q"
  by (simp add: pop_def)

lemma snd_wsq_apply_Steal: "snd (wsq_apply Steal q) = butlast q"
  by (simp add: steal_def)

lemma stamp_run_newest_first:
  "newest_first q \<Longrightarrow> \<forall>e \<in> set q. fst e < k \<Longrightarrow> newest_first (wsq_run (stamp k cs) q)"
proof (induction cs arbitrary: k q)
  case Nil
  then show ?case by simp
next
  case (Cons c cs)
  show ?case
  proof (cases c)
    case (Push x)
    have "newest_first ((k, x) # q)"
      using Cons.prems by (auto simp: newest_first_def)
    moreover have "\<forall>e \<in> set ((k, x) # q). fst e < Suc k"
      using Cons.prems by (auto simp: less_Suc_eq)
    ultimately show ?thesis
      using Cons.IH [of "(k, x) # q" "Suc k"] Push by (simp add: push_def)
  next
    case Pop
    have "newest_first (tl q)" using Cons.prems(1) by (rule newest_first_tl)
    moreover have "\<forall>e \<in> set (tl q). fst e < k"
      using Cons.prems(2) by (cases q) auto
    ultimately show ?thesis
      using Cons.IH [of "tl q" k] Pop by (simp add: snd_wsq_apply_Pop del: wsq_apply.simps)
  next
    case Steal
    have "newest_first (butlast q)" using Cons.prems(1) by (rule newest_first_butlast)
    moreover have "\<forall>e \<in> set (butlast q). fst e < k"
      using Cons.prems(2) by (auto dest: in_set_butlastD)
    ultimately show ?thesis
      using Cons.IH [of "butlast q" k] Steal by (simp add: snd_wsq_apply_Steal del: wsq_apply.simps)
  qed
qed

lemma newest_first_hd: "newest_first q \<Longrightarrow> e \<in> set q \<Longrightarrow> fst e \<le> fst (hd q)"
  by (cases q) (auto simp: newest_first_def)

lemma newest_first_last: "newest_first q \<Longrightarrow> e \<in> set q \<Longrightarrow> fst (last q) \<le> fst e"
  unfolding newest_first_def
  by (induction q rule: rev_induct) (auto simp: sorted_wrt_append)

text \<open>
  C7. \<open>push\<close> inserts at the front (the near end). \<open>pop\<close> returns true exactly on a
  non-empty deque and then removes and returns the front element, which after a push is the
  element just pushed. \<open>steal\<close> returns true exactly on a non-empty deque and then removes
  and returns the back element. After any history of pushes, pops and steals from the empty
  deque, the element a pop returns was pushed later than every element left behind, and the
  element a steal returns was pushed earlier than every element left behind. Draining by
  pops yields the pushes last to first (LIFO), draining by steals first to last (FIFO).
\<close>

theorem wsq_owner_lifo_thief_fifo:
  "push x q = x # q \<and>
   pop (push x q) = Some (x, q) \<and>
   (pop q \<noteq> None \<longleftrightarrow> q \<noteq> []) \<and>
   (q \<noteq> [] \<longrightarrow> pop q = Some (hd q, tl q)) \<and>
   (steal q \<noteq> None \<longleftrightarrow> q \<noteq> []) \<and>
   (q \<noteq> [] \<longrightarrow> steal q = Some (last q, butlast q)) \<and>
   (\<forall>e q'. pop (wsq_run (stamp 0 cs) []) = Some (e, q') \<longrightarrow> (\<forall>e' \<in> set q'. fst e' < fst e)) \<and>
   (\<forall>e q'. steal (wsq_run (stamp 0 cs) []) = Some (e, q') \<longrightarrow> (\<forall>e' \<in> set q'. fst e < fst e')) \<and>
   pop_all (wsq_run (map Push xs) []) = rev xs \<and>
   steal_all (wsq_run (map Push xs) []) = xs"
proof -
  let ?h = "wsq_run (stamp 0 cs) []"
  have nf: "newest_first ?h"
    by (rule stamp_run_newest_first) (simp_all add: newest_first_def)
  have owner: "\<forall>e q'. pop ?h = Some (e, q') \<longrightarrow> (\<forall>e' \<in> set q'. fst e' < fst e)"
  proof (intro allI impI ballI)
    fix e q' e'
    assume "pop ?h = Some (e, q')" and "e' \<in> set q'"
    then obtain "?h = e # q'" and "e' \<in> set q'"
      by (cases ?h) (auto simp: pop_def)
    with nf show "fst e' < fst e"
      by (auto simp: newest_first_def)
  qed
  have thief: "\<forall>e q'. steal ?h = Some (e, q') \<longrightarrow> (\<forall>e' \<in> set q'. fst e < fst e')"
  proof (intro allI impI ballI)
    fix e q' e'
    assume "steal ?h = Some (e, q')" and "e' \<in> set q'"
    then obtain "?h = q' @ [e]" and "e' \<in> set q'"
      by (cases ?h rule: rev_cases) (auto simp: steal_def)
    with nf show "fst e < fst e'"
      by (auto simp: newest_first_def sorted_wrt_append)
  qed
  have "pop_all (wsq_run (map Push xs) []) = rev xs"
    by (simp add: wsq_run_pushes pop_all_eq)
  moreover have "steal_all (wsq_run (map Push xs) []) = xs"
    by (simp add: wsq_run_pushes steal_all_eq)
  moreover have "push x q = x # q" "pop (push x q) = Some (x, q)"
    by (simp_all add: push_def pop_def)
  moreover have "pop q \<noteq> None \<longleftrightarrow> q \<noteq> []" "q \<noteq> [] \<longrightarrow> pop q = Some (hd q, tl q)"
    "steal q \<noteq> None \<longleftrightarrow> q \<noteq> []" "q \<noteq> [] \<longrightarrow> steal q = Some (last q, butlast q)"
    by (simp_all add: pop_def steal_def)
  ultimately show ?thesis using owner thief by blast
qed

theorem wsq_owner_lifo_thief_fifo_witness:
  "pop [2, 1 :: nat] = Some (2, [1]) \<and> steal [2, 1 :: nat] = Some (1, [2]) \<and>
   pop (wsq_run (stamp 0 [Push CHR ''a'', Push CHR ''b'', Pop, Push CHR ''c'']) [])
     = Some ((2, CHR ''c''), [(0, CHR ''a'')]) \<and>
   steal (wsq_run (stamp 0 [Push CHR ''a'', Push CHR ''b'', Pop, Push CHR ''c'']) [])
     = Some ((0, CHR ''a''), [(2, CHR ''c'')]) \<and>
   ((0 :: nat) < 2) \<and>
   pop_all (wsq_run (map Push [1, 2, 3 :: nat]) []) = [3, 2, 1] \<and>
   steal_all (wsq_run (map Push [1, 2, 3 :: nat]) []) = [1, 2, 3]"
  using wsq_owner_lifo_thief_fifo [of "2 :: nat" "[1]" "[Push CHR ''a'', Push CHR ''b'', Pop, Push CHR ''c'']" "[1, 2, 3 :: nat]"]
    wsq_owner_lifo_thief_fifo [of "2 :: nat" "[2, 1]" "[]" "[]"]
  by (simp add: push_def pop_def steal_def)

section \<open>Construction\<close>

text \<open>
  C8. Constructing a pool with 0 threads throws \<open>std::invalid_argument\<close> and yields no
  pool (the check precedes both loops of the constructor); with N \<open>\<ge>\<close> 1 it succeeds with
  exactly N workers and N local deques, and \<open>num_threads()\<close> is N.
\<close>

theorem ThreadPool_ctor_workers:
  "ThreadPool_ctor 0 = Inl (invalid_argument ''Thread pool must have at least one thread'') \<and>
   (n \<noteq> 0 \<longrightarrow> (\<exists>p. ThreadPool_ctor n = Inr p \<and> num_threads p = n \<and>
        length (workers_' p) = unat n \<and> length (local_queues_' p) = unat n))"
  by (simp add: ThreadPool_ctor_def num_threads_def)

theorem ThreadPool_ctor_workers_witness:
  "(4 :: size_t) \<noteq> 0 \<and> num_threads (projr (ThreadPool_ctor 4)) = 4 \<and>
   workers_' (projr (ThreadPool_ctor 4)) = [AtTop, AtTop, AtTop, AtTop]"
proof -
  have r: "replicate 4 AtTop = [AtTop, AtTop, AtTop, AtTop]"
    by (simp add: eval_nat_numeral)
  show ?thesis
    using ThreadPool_ctor_workers [of 4]
    by (simp add: ThreadPool_ctor_def num_threads_def r)
qed

section \<open>Submission\<close>

text \<open>
  C1. When \<open>stop_\<close> or \<open>immediate_stop_\<close> is set, \<open>submit\<close> throws the runtime error
  "Cannot submit task to stopped thread pools" for every priority, instantiation and
  callable, and the process and the pool (all five counters, the global heap, every local
  deque) are exactly as before the call.
\<close>

theorem submit_stopped:
  "stop_' p \<or> immediate_stop_' p \<Longrightarrow>
   submit prio inst f g p = (Inl (runtime_error ''Cannot submit task to stopped thread pools''), g, p)"
  by (simp add: submit_def)

theorem submit_stopped_witness:
  "stop_' (projr (ThreadPool_ctor 1)\<lparr>stop_' := True\<rparr>) \<and>
   submit LOW 0 (Returns 7) process_start (projr (ThreadPool_ctor 1)\<lparr>stop_' := True\<rparr>)
     = (Inl (runtime_error ''Cannot submit task to stopped thread pools''), process_start,
        projr (ThreadPool_ctor 1)\<lparr>stop_' := True\<rparr>)"
  using submit_stopped [of "projr (ThreadPool_ctor 1)\<lparr>stop_' := True\<rparr>" LOW 0 "Returns 7" process_start]
  by simp

section \<open>Source order of the worker\<close>

lemma steal_loop_find:
  "steal_loop i start n ks qs =
     (case find (\<lambda>t. t \<noteq> i \<and> qs ! t \<noteq> []) (map (\<lambda>k. (start + k) mod n) ks) of
        None \<Rightarrow> None
      | Some t \<Rightarrow> Some (last (qs ! t), qs[t := butlast (qs ! t)]))"
  by (induction ks) (auto simp: steal_def Let_def)

lemma scan_inj: "inj_on (\<lambda>k. (start + k) mod n) {0..<n :: nat}"
proof (rule inj_onI)
  fix a b
  assume a: "a \<in> {0..<n}" and b: "b \<in> {0..<n}"
    and eq: "(start + a) mod n = (start + b) mod n"
  have *: "x = y" if "x \<le> y" "y < n" "(start + x) mod n = (start + y) mod n" for x y
  proof -
    have "start + x \<le> start + y" using that by simp
    from mod_eq_dvd_iff_nat [OF this, of n] that(3)
    have "n dvd y - x" by simp
    moreover have "y - x < n" using that by simp
    ultimately have "y - x = 0" by (meson dvd_imp_le not_less zero_less_iff_neq_zero)
    with that show ?thesis by simp
  qed
  show "a = b"
  proof (cases "a \<le> b")
    case True
    with * [of a b] b eq show ?thesis by simp
  next
    case False
    with * [of b a] a eq show ?thesis by simp
  qed
qed

lemma set_scan_order: "0 < n \<Longrightarrow> set (scan_order start n) = {0..<n}"
proof -
  assume n: "0 < n"
  let ?f = "\<lambda>k. (start + k) mod n"
  have "?f ` {0..<n} \<subseteq> {0..<n}" using n by auto
  moreover have "card (?f ` {0..<n}) = card {0..<n}"
    by (rule card_image) (rule scan_inj)
  ultimately have "?f ` {0..<n} = {0..<n}"
    by (intro card_subset_eq) simp_all
  then show ?thesis by (simp add: scan_order_def)
qed


lemma find_None_scan:
  assumes "i < n"
  shows "find (\<lambda>t. t \<noteq> i \<and> qs ! t \<noteq> []) (scan_order start n) = None
           \<longleftrightarrow> (\<forall>t < n. t \<noteq> i \<longrightarrow> qs ! t = [])"
proof -
  have "0 < n" using assms by simp
  then show ?thesis
    by (auto simp: find_None_iff set_scan_order)
qed

lemma try_steal_spec:
  assumes "i < length (workers_' p)"
  shows "try_steal i start p =
     (case find (\<lambda>t. t \<noteq> i \<and> local_queues_' p ! t \<noteq> []) (scan_order start (length (workers_' p))) of
        None \<Rightarrow> None
      | Some t \<Rightarrow> Some (last (local_queues_' p ! t),
                         p\<lparr>local_queues_' := (local_queues_' p)[t := butlast (local_queues_' p ! t)]\<rparr>))"
proof (cases "length (workers_' p) = 1")
  case True
  with assms have "i = 0" by simp
  with True show ?thesis
    by (simp add: try_steal_def scan_order_def)
next
  case False
  then show ?thesis
    by (simp add: try_steal_def scan_order_def steal_loop_find split: option.splits)
qed

lemma get_task_spec_eq:
  assumes "i < length (workers_' p)"
  shows "get_task i start p = get_task_spec i start p"
  by (simp add: get_task_def get_task_spec_def try_steal_spec [OF assms] pop_def pq_top_def
      pq_pop_def split: option.splits)

text \<open>
  C2. For a worker index \<open>i\<close> of the pool and any draw \<open>start\<close>, \<open>get_task\<close> computes
  exactly the source order of the specification (\<open>get_task_spec\<close>): the global heap if it
  is non-empty, else the front of deque \<open>i\<close>, else a steal from the back of the first
  non-empty deque other than \<open>i\<close> in the order \<open>start, start + 1, ...\<close> modulo N, which
  visits each of the N indices once. It returns false exactly when the heap, deque \<open>i\<close> and
  every other deque are empty. (The draw is an input here; how \<open>std::mt19937\<close> distributes
  it is outside the model.)
\<close>

theorem get_task_source_order:
  assumes "i < length (workers_' p)"
  shows "get_task i start p = get_task_spec i start p \<and>
         length (scan_order start (length (workers_' p))) = length (workers_' p) \<and>
         set (scan_order start (length (workers_' p))) = {0..<length (workers_' p)} \<and>
         (fst (get_task i start p) = None \<longleftrightarrow>
            global_queue_' p = [] \<and> local_queues_' p ! i = [] \<and>
            (\<forall>t < length (workers_' p). t \<noteq> i \<longrightarrow> local_queues_' p ! t = []))"
proof -
  have eq: "get_task i start p = get_task_spec i start p"
    using assms by (rule get_task_spec_eq)
  have "fst (get_task_spec i start p) = None \<longleftrightarrow>
            global_queue_' p = [] \<and> local_queues_' p ! i = [] \<and>
            (\<forall>t < length (workers_' p). t \<noteq> i \<longrightarrow> local_queues_' p ! t = [])"
    using find_None_scan [OF assms, of "local_queues_' p" start]
    by (auto simp: get_task_spec_def split: option.splits)
  moreover have "0 < length (workers_' p)" using assms by linarith
  ultimately show ?thesis
    using eq by (simp add: set_scan_order) (simp add: scan_order_def)
qed


theorem get_task_source_order_witness:
  "(0 :: nat) < length (workers_' \<lparr>workers_' = [AtTop, AtTop, AtTop],
        local_queues_' = [[], [], [\<lparr>shared = 0, bound = Returns 1\<rparr>, \<lparr>shared = 1, bound = Returns 2\<rparr>]],
        global_queue_' = [], stop_' = False, immediate_stop_' = False, active_tasks_' = 2,
        pending_tasks_' = 2, tasks_completed_' = 0, tasks_stolen_' = 0,
        total_tasks_submitted_' = 2\<rparr>) \<and>
   scan_order 1 3 = [1, 2, 0] \<and>
   get_task 0 1 \<lparr>workers_' = [AtTop, AtTop, AtTop],
        local_queues_' = [[], [], [\<lparr>shared = 0, bound = Returns 1\<rparr>, \<lparr>shared = 1, bound = Returns 2\<rparr>]],
        global_queue_' = [], stop_' = False, immediate_stop_' = False, active_tasks_' = 2,
        pending_tasks_' = 2, tasks_completed_' = 0, tasks_stolen_' = 0,
        total_tasks_submitted_' = 2\<rparr>
     = (Some \<lparr>shared = 1, bound = Returns 2\<rparr>,
        \<lparr>workers_' = [AtTop, AtTop, AtTop],
        local_queues_' = [[], [], [\<lparr>shared = 0, bound = Returns 1\<rparr>]],
        global_queue_' = [], stop_' = False, immediate_stop_' = False, active_tasks_' = 2,
        pending_tasks_' = 2, tasks_completed_' = 0, tasks_stolen_' = 1,
        total_tasks_submitted_' = 2\<rparr>)"
proof -
  let ?p = "\<lparr>workers_' = [AtTop, AtTop, AtTop],
        local_queues_' = [[], [], [\<lparr>shared = 0, bound = Returns 1\<rparr>, \<lparr>shared = 1, bound = Returns 2\<rparr>]],
        global_queue_' = [], stop_' = False, immediate_stop_' = False, active_tasks_' = 2,
        pending_tasks_' = 2, tasks_completed_' = 0, tasks_stolen_' = 0,
        total_tasks_submitted_' = 2\<rparr>"
  have s: "scan_order 1 3 = [1, 2, 0]"
    by code_simp
  have g: "get_task_spec 0 1 ?p = (Some \<lparr>shared = 1, bound = Returns 2\<rparr>,
        ?p\<lparr>local_queues_' := [[], [], [\<lparr>shared = 0, bound = Returns 1\<rparr>]], tasks_stolen_' := 1\<rparr>)"
    by code_simp
  show ?thesis
    using get_task_source_order [of 0 ?p 1] g s by simp
qed

section \<open>The running system\<close>


lemma exec_invariant:
  assumes "exec evs w = Some w'" and "P w"
    and "\<And>e u u'. P u \<Longrightarrow> step e u = Some u' \<Longrightarrow> P u'"
  shows "P w'"
  using assms(1,2)
proof (induction evs arbitrary: w)
  case Nil
  then show ?case by simp
next
  case (Cons e evs)
  then obtain u where u: "step e w = Some u" and rest: "exec evs u = Some w'"
    by (auto split: option.splits)
  from assms(3) [OF Cons.prems(2) u] have "P u" .
  with Cons.IH rest show ?case by blast
qed

subsection \<open>What each action does\<close>

lemma step_SubmitE:
  assumes "step (Submit prio inst f) w = Some w'"
  obtains r g' p' where "submit prio inst f (proc w) (pool w) = (r, g', p')"
    and "w' = w\<lparr>proc := g', pool := p'\<rparr>"
proof -
  obtain r g' p' where s: "submit prio inst f (proc w) (pool w) = (r, g', p')"
    by (cases "submit prio inst f (proc w) (pool w)")
  with assms have "w' = w\<lparr>proc := g', pool := p'\<rparr>" by simp
  with s that show thesis by blast
qed

lemma step_SubmitEnterE:
  assumes "step (SubmitEnter prio inst f) w = Some w'"
  obtains (throws) "stop_' (pool w) \<or> immediate_stop_' (pool w)" and "w' = w"
  | (enters) "\<not> stop_' (pool w)" and "\<not> immediate_stop_' (pool w)"
      and "w' = w\<lparr>inflight := inflight w @ [(prio, inst, f)]\<rparr>"
proof (cases "stop_' (pool w) \<or> immediate_stop_' (pool w)")
  case True
  with assms have "w' = w" by simp
  with True throws show thesis by blast
next
  case False
  with assms have "w' = w\<lparr>inflight := inflight w @ [(prio, inst, f)]\<rparr>" by simp
  with False enters show thesis by blast
qed

lemma step_SubmitLeaveE:
  assumes "step (SubmitLeave k) w = Some w'"
  obtains prio inst f h g' p' where "k < length (inflight w)"
    and "inflight w ! k = (prio, inst, f)"
    and "submit_rest prio inst f (proc w) (pool w) = (h, g', p')"
    and "w' = w\<lparr>proc := g', pool := p',
                  inflight := take k (inflight w) @ drop (Suc k) (inflight w)\<rparr>"
proof -
  have en: "k < length (inflight w)"
    using assms by (simp split: if_splits)
  obtain prio inst f where x: "inflight w ! k = (prio, inst, f)"
    by (cases "inflight w ! k")
  obtain h g' p' where r: "submit_rest prio inst f (proc w) (pool w) = (h, g', p')"
    by (cases "submit_rest prio inst f (proc w) (pool w)")
  from assms en x r have "w' = w\<lparr>proc := g', pool := p',
                  inflight := take k (inflight w) @ drop (Suc k) (inflight w)\<rparr>"
    by simp
  with en x r that show thesis by blast
qed

lemma step_PollE:
  assumes "step (Poll i start) w = Some w'"
  obtains r p' where "i < length (workers_' (pool w))" and "start < length (workers_' (pool w))"
    and "workers_' (pool w) ! i = AtTop"
    and "get_task i start (pool w) = (r, p')"
    and "w' = w\<lparr>pool := p'\<lparr>workers_' := (workers_' p')[i :=
            (case r of Some t \<Rightarrow> Running t
                     | None \<Rightarrow> if leaves_loop p' then Exited else Parked)]\<rparr>\<rparr>"
proof -
  have en: "i < length (workers_' (pool w)) \<and> start < length (workers_' (pool w)) \<and>
            workers_' (pool w) ! i = AtTop"
    using assms by (simp add: Let_def split: if_splits)
  obtain r p' where g: "get_task i start (pool w) = (r, p')"
    by (cases "get_task i start (pool w)")
  have "w' = w\<lparr>pool := p'\<lparr>workers_' := (workers_' p')[i :=
            (case r of Some t \<Rightarrow> Running t
                     | None \<Rightarrow> if leaves_loop p' then Exited else Parked)]\<rparr>\<rparr>"
    using assms en g by (cases r) (simp_all add: Let_def)
  with en g that show thesis by blast
qed

lemma step_RunE:
  assumes "step (Run i) w = Some w'"
  obtains t g' p' where "i < length (workers_' (pool w))"
    and "workers_' (pool w) ! i = Running t"
    and "wrapped_task t (proc w) (pool w) = (None, g', p')"
    and "w' = w\<lparr>proc := g', pool := p'\<lparr>workers_' := (workers_' p')[i := AtTop]\<rparr>\<rparr>"
proof -
  have en: "i < length (workers_' (pool w))"
    using assms by (simp add: Let_def split: if_splits)
  then obtain t where t: "workers_' (pool w) ! i = Running t"
    using assms by (cases "workers_' (pool w) ! i") (simp_all add: Let_def)
  obtain x g' p' where wt: "wrapped_task t (proc w) (pool w) = (x, g', p')"
    by (cases "wrapped_task t (proc w) (pool w)")
  have x: "x = None"
    using wt by (simp add: wrapped_task_def Let_def)
  have "w' = w\<lparr>proc := g', pool := p'\<lparr>workers_' := (workers_' p')[i := AtTop]\<rparr>\<rparr>"
    using assms en t wt x by (simp add: Let_def)
  with en t wt x that show thesis by blast
qed

lemma step_WakeE:
  assumes "step (Wake i) w = Some w'"
  obtains "i < length (workers_' (pool w))" and "workers_' (pool w) ! i = Parked"
    and "w' = w\<lparr>pool := (pool w)\<lparr>workers_' := (workers_' (pool w))[i :=
            (if leaves_loop (pool w) then Exited else AtTop)]\<rparr>\<rparr>"
proof -
  have en: "i < length (workers_' (pool w)) \<and> workers_' (pool w) ! i = Parked"
    using assms by (simp add: Let_def split: if_splits)
  with assms have "w' = w\<lparr>pool := (pool w)\<lparr>workers_' := (workers_' (pool w))[i :=
            (if leaves_loop (pool w) then Exited else AtTop)]\<rparr>\<rparr>"
    by (simp add: Let_def)
  with en that show thesis by blast
qed

lemma step_WaitAllE:
  assumes "step WaitAll w = Some w'"
  obtains "pending_tasks_' (pool w) = 0" and "w' = w"
proof -
  have en: "pending_tasks_' (pool w) = 0"
    using assms by (simp split: if_splits)
  with assms have "w' = w" by simp
  with en that show thesis by blast
qed

lemma step_ShutdownGracefulE:
  assumes "step ShutdownGraceful w = Some w'"
  obtains (early) "stop_' (pool w) \<or> immediate_stop_' (pool w)" and "w' = w"
  | (join) "lifecycle w = Outside" and "\<not> stop_' (pool w)" and "\<not> immediate_stop_' (pool w)"
      and "w' = w\<lparr>pool := (pool w)\<lparr>stop_' := True\<rparr>, lifecycle := InGracefulJoin\<rparr>"
proof (cases "stop_' (pool w) \<or> immediate_stop_' (pool w)")
  case True
  with assms have "w' = w" by (simp add: shutdown_graceful_begin_def)
  with True early show thesis by blast
next
  case False
  with assms have en: "lifecycle w = Outside"
    by (simp add: shutdown_graceful_begin_def split: if_splits)
  with assms False have "w' = w\<lparr>pool := (pool w)\<lparr>stop_' := True\<rparr>, lifecycle := InGracefulJoin\<rparr>"
    by (simp add: shutdown_graceful_begin_def)
  with en False join show thesis by blast
qed

lemma step_GracefulJoinedE:
  assumes "step GracefulJoined w = Some w'"
  obtains "lifecycle w = InGracefulJoin" and "joined (pool w)" and "w' = w\<lparr>lifecycle := Outside\<rparr>"
proof -
  have en: "lifecycle w = InGracefulJoin \<and> joined (pool w)"
    using assms by (simp split: if_splits)
  with assms have "w' = w\<lparr>lifecycle := Outside\<rparr>" by simp
  with en that show thesis by blast
qed

lemma step_ShutdownImmediateE:
  assumes "step ShutdownImmediate w = Some w'"
  obtains (early) "immediate_stop_' (pool w)" and "w' = w"
  | (join) "lifecycle w = Outside" and "\<not> immediate_stop_' (pool w)"
      and "w' = w\<lparr>pool := (pool w)\<lparr>immediate_stop_' := True, stop_' := True\<rparr>,
                    lifecycle := InImmediateJoin\<rparr>"
proof (cases "immediate_stop_' (pool w)")
  case True
  with assms have "w' = w" by (simp add: shutdown_immediate_begin_def)
  with True early show thesis by blast
next
  case False
  with assms have en: "lifecycle w = Outside"
    by (simp add: shutdown_immediate_begin_def split: if_splits)
  with assms False have "w' = w\<lparr>pool := (pool w)\<lparr>immediate_stop_' := True, stop_' := True\<rparr>,
                    lifecycle := InImmediateJoin\<rparr>"
    by (simp add: shutdown_immediate_begin_def)
  with en False join show thesis by blast
qed

lemma step_ImmediateJoinedE:
  assumes "step ImmediateJoined w = Some w'"
  obtains "lifecycle w = InImmediateJoin" and "joined (pool w)"
    and "w' = w\<lparr>proc := abandon_all (map task (global_queue_' (pool w)) @
                                     concat (local_queues_' (pool w))) (proc w),
                  pool := shutdown_immediate_end (pool w), lifecycle := Outside\<rparr>"
proof -
  have en: "lifecycle w = InImmediateJoin \<and> joined (pool w)"
    using assms by (simp split: if_splits)
  with assms have "w' = w\<lparr>proc := abandon_all (map task (global_queue_' (pool w)) @
                                     concat (local_queues_' (pool w))) (proc w),
                  pool := shutdown_immediate_end (pool w), lifecycle := Outside\<rparr>"
    by simp
  with en that show thesis by blast
qed

subsection \<open>Frames of the pool operations\<close>

lemma steal_loop_length:
  "steal_loop i start n ks qs = Some (t, qs') \<Longrightarrow> length qs' = length qs"
proof (induction ks)
  case Nil
  then show ?case by simp
next
  case (Cons k ks)
  let ?target = "(start + k) mod n"
  show ?case
  proof (cases "?target = i")
    case True
    with Cons show ?thesis by (simp add: Let_def)
  next
    case False
    show ?thesis
    proof (cases "steal (qs ! ?target)")
      case None
      with False Cons show ?thesis by (simp add: Let_def)
    next
      case (Some a)
      with False Cons.prems have "qs' = qs[?target := snd a]"
        by (cases a) (simp add: Let_def)
      then show ?thesis by simp
    qed
  qed
qed

lemma try_steal_frame:
  assumes "try_steal i start p = Some (t, p')"
  obtains qs where "p' = p\<lparr>local_queues_' := qs\<rparr>" and "length qs = length (local_queues_' p)"
    and "length (workers_' p) \<noteq> 1"
proof -
  have n: "length (workers_' p) \<noteq> 1"
    using assms by (simp add: try_steal_def Let_def split: if_splits)
  obtain r where r: "steal_loop i start (length (workers_' p)) [0..<length (workers_' p)] (local_queues_' p) = r"
    by simp
  show thesis
  proof (cases r)
    case None
    with assms n r show ?thesis by (simp add: try_steal_def Let_def)
  next
    case (Some a)
    obtain t' qs where a: "a = (t', qs)" by (cases a)
    with assms n r Some have "p' = p\<lparr>local_queues_' := qs\<rparr>"
      by (simp add: try_steal_def Let_def)
    moreover from r Some a have "length qs = length (local_queues_' p)"
      by (simp add: steal_loop_length)
    ultimately show ?thesis using n that by blast
  qed
qed

lemma get_task_frame:
  assumes "get_task i start p = (r, p')"
  obtains gq qs st where
    "p' = p\<lparr>global_queue_' := gq, local_queues_' := qs, tasks_stolen_' := st\<rparr>"
    and "length qs = length (local_queues_' p)"
    and "st = tasks_stolen_' p \<or> length (workers_' p) \<noteq> 1 \<and> st = tasks_stolen_' p + 1 \<and> r \<noteq> None"
proof (cases "global_queue_' p \<noteq> []")
  case True
  with assms have "p' = p\<lparr>global_queue_' := pq_pop (global_queue_' p)\<rparr>"
    by (simp add: get_task_def)
  then have "p' = p\<lparr>global_queue_' := pq_pop (global_queue_' p), local_queues_' := local_queues_' p,
                     tasks_stolen_' := tasks_stolen_' p\<rparr>"
    by simp
  then show ?thesis using that by blast
next
  case g: False
  show ?thesis
  proof (cases "pop (local_queues_' p ! i)")
    case (Some a)
    with assms g have "p' = p\<lparr>local_queues_' := (local_queues_' p)[i := snd a]\<rparr>"
      by (cases a) (simp add: get_task_def)
    then have "p' = p\<lparr>global_queue_' := global_queue_' p,
                       local_queues_' := (local_queues_' p)[i := snd a],
                       tasks_stolen_' := tasks_stolen_' p\<rparr>"
      by simp
    moreover have "length ((local_queues_' p)[i := snd a]) = length (local_queues_' p)"
      by simp
    ultimately show ?thesis using that by blast
  next
    case None
    show ?thesis
    proof (cases "try_steal i start p")
      case n: None
      with assms g None have "p' = p" by (simp add: get_task_def)
      then have "p' = p\<lparr>global_queue_' := global_queue_' p, local_queues_' := local_queues_' p,
                       tasks_stolen_' := tasks_stolen_' p\<rparr>"
        by simp
      then show ?thesis using that by blast
    next
      case (Some b)
      obtain t p1 where b: "b = (t, p1)" by (cases b)
      from Some b have ts: "try_steal i start p = Some (t, p1)" by simp
      from ts obtain qs where qs: "p1 = p\<lparr>local_queues_' := qs\<rparr>" "length qs = length (local_queues_' p)"
        "length (workers_' p) \<noteq> 1" by (rule try_steal_frame)
      from assms g None ts have "p' = p1\<lparr>tasks_stolen_' := tasks_stolen_' p1 + 1\<rparr>" "r = Some t"
        by (simp_all add: get_task_def)
      with qs have "p' = p\<lparr>global_queue_' := global_queue_' p, local_queues_' := qs,
                       tasks_stolen_' := tasks_stolen_' p + 1\<rparr>" "r \<noteq> None"
        by simp_all
      with qs show ?thesis using that by blast
    qed
  qed
qed

lemma submit_rest_frame:
  assumes "submit_rest prio inst f g p = (h, g', p')"
  shows "workers_' p' = workers_' p" and "stop_' p' = stop_' p"
    and "immediate_stop_' p' = immediate_stop_' p"
    and "tasks_completed_' p' = tasks_completed_' p" and "tasks_stolen_' p' = tasks_stolen_' p"
    and "length (local_queues_' p') = length (local_queues_' p)"
    and "active_tasks_' p' = pending_tasks_' p' \<longleftrightarrow> active_tasks_' p = pending_tasks_' p"
proof -
  from assms have p': "p' = snd (snd (submit_rest prio inst f g p))" by simp
  show "workers_' p' = workers_' p" and "stop_' p' = stop_' p"
    and "immediate_stop_' p' = immediate_stop_' p"
    and "tasks_completed_' p' = tasks_completed_' p" and "tasks_stolen_' p' = tasks_stolen_' p"
    and "length (local_queues_' p') = length (local_queues_' p)"
    and "active_tasks_' p' = pending_tasks_' p' \<longleftrightarrow> active_tasks_' p = pending_tasks_' p"
    unfolding p' by (simp_all add: submit_rest_def Let_def)
qed

lemma submit_cases:
  assumes "submit prio inst f g p = (r, g', p')"
  obtains (stopped) "stop_' p \<or> immediate_stop_' p" and "g' = g" and "p' = p"
      and "r = Inl (runtime_error ''Cannot submit task to stopped thread pools'')"
  | (accepted) h where "\<not> stop_' p" and "\<not> immediate_stop_' p"
      and "submit_rest prio inst f g p = (h, g', p')" and "r = Inr h"
proof (cases "stop_' p \<or> immediate_stop_' p")
  case True
  with assms have "g' = g" "p' = p"
    "r = Inl (runtime_error ''Cannot submit task to stopped thread pools'')"
    by (simp_all add: submit_def)
  with True stopped show thesis by blast
next
  case False
  obtain h g1 p1 where r: "submit_rest prio inst f g p = (h, g1, p1)"
    by (cases "submit_rest prio inst f g p")
  with assms False have "r = Inr h" "g' = g1" "p' = p1"
    by (simp_all add: submit_def)
  with False r accepted show thesis by blast
qed

lemma submit_frame:
  assumes "submit prio inst f g p = (r, g', p')"
  shows "workers_' p' = workers_' p" and "stop_' p' = stop_' p"
    and "immediate_stop_' p' = immediate_stop_' p"
    and "tasks_completed_' p' = tasks_completed_' p" and "tasks_stolen_' p' = tasks_stolen_' p"
    and "length (local_queues_' p') = length (local_queues_' p)"
    and "active_tasks_' p' = pending_tasks_' p' \<longleftrightarrow> active_tasks_' p = pending_tasks_' p"
proof -
  from assms have "workers_' p' = workers_' p \<and> stop_' p' = stop_' p \<and>
    immediate_stop_' p' = immediate_stop_' p \<and>
    tasks_completed_' p' = tasks_completed_' p \<and> tasks_stolen_' p' = tasks_stolen_' p \<and>
    length (local_queues_' p') = length (local_queues_' p) \<and>
    (active_tasks_' p' = pending_tasks_' p' \<longleftrightarrow> active_tasks_' p = pending_tasks_' p)"
  proof (cases rule: submit_cases)
    case stopped
    then show ?thesis by simp
  next
    case (accepted h)
    from submit_rest_frame [OF accepted(3)] show ?thesis by simp
  qed
  then show "workers_' p' = workers_' p" and "stop_' p' = stop_' p"
    and "immediate_stop_' p' = immediate_stop_' p"
    and "tasks_completed_' p' = tasks_completed_' p" and "tasks_stolen_' p' = tasks_stolen_' p"
    and "length (local_queues_' p') = length (local_queues_' p)"
    and "active_tasks_' p' = pending_tasks_' p' \<longleftrightarrow> active_tasks_' p = pending_tasks_' p"
    by simp_all
qed

lemma wrapped_task_frame:
  assumes "wrapped_task t g p = (x, g', p')"
  shows "x = None" and "counter g' = counter g" and "length (futures g') = length (futures g)"
    and "p' = p\<lparr>active_tasks_' := active_tasks_' p - 1,
                 pending_tasks_' := pending_tasks_' p - 1,
                 tasks_completed_' := tasks_completed_' p + 1\<rparr>"
proof -
  from assms show "x = None" by (simp add: wrapped_task_def Let_def)
  from assms show "p' = p\<lparr>active_tasks_' := active_tasks_' p - 1,
                 pending_tasks_' := pending_tasks_' p - 1,
                 tasks_completed_' := tasks_completed_' p + 1\<rparr>"
    by (simp add: wrapped_task_def Let_def)
  have "counter g' = counter g \<and> length (futures g') = length (futures g)"
  proof (cases "packaged_task_call t g")
    case (Inl a)
    with assms show ?thesis by (simp add: wrapped_task_def)
  next
    case (Inr g1)
    with assms have "g' = g1" by (simp add: wrapped_task_def)
    with Inr show ?thesis
      by (simp add: packaged_task_call_def split: if_splits) auto
  qed
  then show "counter g' = counter g" and "length (futures g') = length (futures g)" by simp_all
qed

lemma drain_global_Nil: "drain_global q = []"
proof (induction q)
  case Nil
  show ?case by (simp add: drain_global.simps)
next
  case (Cons x q)
  then show ?case by (subst drain_global.simps) (simp add: pq_pop_def)
qed

lemma drain_local_Nil: "drain_local q = []"
proof (induction q)
  case Nil
  show ?case by (simp add: drain_local.simps pop_def)
next
  case (Cons x q)
  then show ?case by (subst drain_local.simps) (simp add: pop_def)
qed

lemma map_drain_local: "map drain_local qs = replicate (length qs) []"
  by (induction qs) (simp_all add: drain_local_Nil)

lemma shutdown_immediate_end_fields:
  "global_queue_' (shutdown_immediate_end p) = []"
  "local_queues_' (shutdown_immediate_end p) = replicate (length (local_queues_' p)) []"
  "pending_tasks_' (shutdown_immediate_end p) = 0"
  "workers_' (shutdown_immediate_end p) = workers_' p"
  "stop_' (shutdown_immediate_end p) = stop_' p"
  "immediate_stop_' (shutdown_immediate_end p) = immediate_stop_' p"
  "active_tasks_' (shutdown_immediate_end p) = active_tasks_' p"
  "tasks_completed_' (shutdown_immediate_end p) = tasks_completed_' p"
  "tasks_stolen_' (shutdown_immediate_end p) = tasks_stolen_' p"
  "total_tasks_submitted_' (shutdown_immediate_end p) = total_tasks_submitted_' p"
  by (simp_all add: shutdown_immediate_end_def drain_global_Nil map_drain_local)


subsection \<open>The number of workers and deques never changes\<close>

lemma step_shape:
  assumes "step e w = Some w'"
  shows "length (workers_' (pool w')) = length (workers_' (pool w)) \<and>
         length (local_queues_' (pool w')) = length (local_queues_' (pool w))"
proof (cases e)
  case (Submit prio inst f)
  from assms [unfolded Submit] obtain r g' p'
    where "submit prio inst f (proc w) (pool w) = (r, g', p')" "w' = w\<lparr>proc := g', pool := p'\<rparr>"
    by (rule step_SubmitE)
  then show ?thesis using submit_frame(1,6) [of prio inst f "proc w" "pool w" r g' p'] by simp
next
  case (SubmitEnter prio inst f)
  from assms [unfolded SubmitEnter] show ?thesis by (rule step_SubmitEnterE) simp_all
next
  case (SubmitLeave k)
  from assms [unfolded SubmitLeave] obtain prio inst f h g' p'
    where s: "submit_rest prio inst f (proc w) (pool w) = (h, g', p')"
      and w': "w' = w\<lparr>proc := g', pool := p',
                  inflight := take k (inflight w) @ drop (Suc k) (inflight w)\<rparr>"
    by (rule step_SubmitLeaveE)
  with submit_rest_frame(1,6) [OF s] show ?thesis by simp
next
  case (Poll i start)
  from assms [unfolded Poll] obtain r p'
    where g: "get_task i start (pool w) = (r, p')"
      and w': "w' = w\<lparr>pool := p'\<lparr>workers_' := (workers_' p')[i :=
            (case r of Some t \<Rightarrow> Running t
                     | None \<Rightarrow> if leaves_loop p' then Exited else Parked)]\<rparr>\<rparr>"
    by (rule step_PollE)
  from g obtain gq qs st
    where "p' = (pool w)\<lparr>global_queue_' := gq, local_queues_' := qs, tasks_stolen_' := st\<rparr>"
      and "length qs = length (local_queues_' (pool w))"
    by (rule get_task_frame)
  with w' show ?thesis by simp
next
  case (Run i)
  from assms [unfolded Run] obtain t g' p'
    where wt: "wrapped_task t (proc w) (pool w) = (None, g', p')"
      and w': "w' = w\<lparr>proc := g', pool := p'\<lparr>workers_' := (workers_' p')[i := AtTop]\<rparr>\<rparr>"
    by (rule step_RunE)
  from wrapped_task_frame(4) [OF wt] w' show ?thesis by simp
next
  case (Wake i)
  from assms [unfolded Wake] show ?thesis by (rule step_WakeE) simp
next
  case WaitAll
  from assms [unfolded WaitAll] show ?thesis by (rule step_WaitAllE) simp
next
  case ShutdownGraceful
  from assms [unfolded ShutdownGraceful] show ?thesis by (rule step_ShutdownGracefulE) simp_all
next
  case GracefulJoined
  from assms [unfolded GracefulJoined] show ?thesis by (rule step_GracefulJoinedE) simp
next
  case ShutdownImmediate
  from assms [unfolded ShutdownImmediate] show ?thesis by (rule step_ShutdownImmediateE) simp_all
next
  case ImmediateJoined
  from assms [unfolded ImmediateJoined] show ?thesis
    by (rule step_ImmediateJoinedE) (simp add: shutdown_immediate_end_fields)
qed

lemma exec_shape:
  assumes "exec evs w = Some w'"
  shows "length (workers_' (pool w')) = length (workers_' (pool w)) \<and>
         length (local_queues_' (pool w')) = length (local_queues_' (pool w))"
proof -
  let ?P = "\<lambda>u. length (workers_' (pool u)) = length (workers_' (pool w)) \<and>
         length (local_queues_' (pool u)) = length (local_queues_' (pool w))"
  have "?P w'"
  proof (rule exec_invariant [OF assms, of ?P])
    show "?P w" by simp
  next
    fix e u u'
    assume "?P u" and "step e u = Some u'"
    then show "?P u'" using step_shape [of e u u'] by simp
  qed
  then show ?thesis .
qed

subsection \<open>A pool with one worker\<close>

lemma try_steal_single: "length (workers_' p) = 1 \<Longrightarrow> try_steal i start p = None"
  by (simp add: try_steal_def)

lemma step_stolen_single:
  assumes "step e w = Some w'" and "length (workers_' (pool w)) = 1"
  shows "tasks_stolen_' (pool w') = tasks_stolen_' (pool w)"
proof (cases e)
  case (Submit prio inst f)
  from assms(1) [unfolded Submit] obtain r g' p'
    where "submit prio inst f (proc w) (pool w) = (r, g', p')" "w' = w\<lparr>proc := g', pool := p'\<rparr>"
    by (rule step_SubmitE)
  then show ?thesis using submit_frame(5) [of prio inst f "proc w" "pool w" r g' p'] by simp
next
  case (SubmitEnter prio inst f)
  from assms(1) [unfolded SubmitEnter] show ?thesis by (rule step_SubmitEnterE) simp_all
next
  case (SubmitLeave k)
  from assms(1) [unfolded SubmitLeave] obtain prio inst f h g' p'
    where s: "submit_rest prio inst f (proc w) (pool w) = (h, g', p')"
      and w': "w' = w\<lparr>proc := g', pool := p',
                  inflight := take k (inflight w) @ drop (Suc k) (inflight w)\<rparr>"
    by (rule step_SubmitLeaveE)
  with submit_rest_frame(5) [OF s] show ?thesis by simp
next
  case (Poll i start)
  from assms(1) [unfolded Poll] obtain r p'
    where g: "get_task i start (pool w) = (r, p')"
      and w': "w' = w\<lparr>pool := p'\<lparr>workers_' := (workers_' p')[i :=
            (case r of Some t \<Rightarrow> Running t
                     | None \<Rightarrow> if leaves_loop p' then Exited else Parked)]\<rparr>\<rparr>"
    by (rule step_PollE)
  from g obtain gq qs st
    where "p' = (pool w)\<lparr>global_queue_' := gq, local_queues_' := qs, tasks_stolen_' := st\<rparr>"
      and "st = tasks_stolen_' (pool w) \<or>
           length (workers_' (pool w)) \<noteq> 1 \<and> st = tasks_stolen_' (pool w) + 1 \<and> r \<noteq> None"
    by (rule get_task_frame)
  with w' assms(2) show ?thesis by simp
next
  case (Run i)
  from assms(1) [unfolded Run] obtain t g' p'
    where wt: "wrapped_task t (proc w) (pool w) = (None, g', p')"
      and w': "w' = w\<lparr>proc := g', pool := p'\<lparr>workers_' := (workers_' p')[i := AtTop]\<rparr>\<rparr>"
    by (rule step_RunE)
  from wrapped_task_frame(4) [OF wt] w' show ?thesis by simp
next
  case (Wake i)
  from assms(1) [unfolded Wake] show ?thesis by (rule step_WakeE) simp
next
  case WaitAll
  from assms(1) [unfolded WaitAll] show ?thesis by (rule step_WaitAllE) simp
next
  case ShutdownGraceful
  from assms(1) [unfolded ShutdownGraceful] show ?thesis by (rule step_ShutdownGracefulE) simp_all
next
  case GracefulJoined
  from assms(1) [unfolded GracefulJoined] show ?thesis by (rule step_GracefulJoinedE) simp
next
  case ShutdownImmediate
  from assms(1) [unfolded ShutdownImmediate] show ?thesis by (rule step_ShutdownImmediateE) simp_all
next
  case ImmediateJoined
  from assms(1) [unfolded ImmediateJoined] show ?thesis
    by (rule step_ImmediateJoinedE) (simp add: shutdown_immediate_end_fields)
qed

lemma ThreadPool_ctor_fields:
  assumes "ThreadPool_ctor n = Inr p"
  shows "workers_' p = replicate (unat n) AtTop" and "local_queues_' p = replicate (unat n) []"
    and "global_queue_' p = []" and "\<not> stop_' p" and "\<not> immediate_stop_' p"
    and "active_tasks_' p = 0" and "pending_tasks_' p = 0" and "tasks_completed_' p = 0"
    and "tasks_stolen_' p = 0" and "total_tasks_submitted_' p = 0" and "n \<noteq> 0"
  using assms by (auto simp: ThreadPool_ctor_def split: if_splits)

text \<open>
  C10. In a pool constructed with one worker, in every state the program can reach,
  \<open>try_steal\<close> returns false for every caller and every draw (its first test returns
  before the scan loop, whatever the deques hold), and \<open>get_stats().tasks_stolen\<close> is 0.
\<close>

theorem single_worker_never_steals:
  assumes "ThreadPool_ctor 1 = Inr p0" and "exec evs (boot g p0) = Some w"
  shows "num_threads (pool w) = 1 \<and> try_steal i start (pool w) = None \<and>
         tasks_stolen (get_stats (pool w)) = 0"
proof -
  let ?P = "\<lambda>u. length (workers_' (pool u)) = 1 \<and> tasks_stolen_' (pool u) = 0"
  have "?P w"
  proof (rule exec_invariant [OF assms(2), of ?P])
    show "?P (boot g p0)"
      using ThreadPool_ctor_fields(1,9) [OF assms(1)] by (simp add: boot_def)
  next
    fix e u u'
    assume "?P u" and "step e u = Some u'"
    then show "?P u'" using step_shape [of e u u'] step_stolen_single [of e u u'] by simp
  qed
  then show ?thesis
    by (simp add: try_steal_single get_stats_def num_threads_def)
qed

theorem single_worker_never_steals_witness:
  "ThreadPool_ctor 1 = Inr (projr (ThreadPool_ctor 1)) \<and>
   exec [Submit MEDIUM 0 (Returns 1), Submit LOW 0 (Returns 2), Poll 0 0, Run 0]
     (boot process_start (projr (ThreadPool_ctor 1))) \<noteq> None \<and>
   tasks_completed (get_stats (pool (the (exec
     [Submit MEDIUM 0 (Returns 1), Submit LOW 0 (Returns 2), Poll 0 0, Run 0]
     (boot process_start (projr (ThreadPool_ctor 1))))))) = 1 \<and>
   tasks_stolen (get_stats (pool (the (exec
     [Submit MEDIUM 0 (Returns 1), Submit LOW 0 (Returns 2), Poll 0 0, Run 0]
     (boot process_start (projr (ThreadPool_ctor 1))))))) = 0"
proof -
  let ?tr = "[Submit MEDIUM 0 (Returns 1), Submit LOW 0 (Returns 2), Poll 0 0, Run 0]"
  let ?w0 = "boot process_start (projr (ThreadPool_ctor 1))"
  have c: "ThreadPool_ctor 1 = Inr (projr (ThreadPool_ctor 1))"
    by code_simp
  have n: "exec ?tr ?w0 \<noteq> None"
    by code_simp
  then have e: "exec ?tr ?w0 = Some (the (exec ?tr ?w0))"
    by simp
  have d: "tasks_completed (get_stats (pool (the (exec ?tr ?w0)))) = 1"
    by code_simp
  from single_worker_never_steals [OF c e] c n d show ?thesis
    by simp
qed

subsection \<open>Lifecycle\<close>

lemma submit_stopped_pool:
  assumes "stop_' p \<or> immediate_stop_' p" and "submit prio inst f g p = (r, g', p')"
  shows "p' = p" and "g' = g"
  using assms by (simp_all add: submit_def)





subsection \<open>Tasks in the workers' hands\<close>

lemma mset_concat_update:
  "i < length qs \<Longrightarrow> mset (concat (qs[i := q'])) + mset (qs ! i) = mset (concat qs) + mset q'"
proof (induction qs arbitrary: i)
  case Nil
  then show ?case by simp
next
  case (Cons q qs)
  show ?case
  proof (cases i)
    case 0
    then show ?thesis by simp
  next
    case (Suc j)
    with Cons.prems have "j < length qs" by simp
    from Cons.IH [OF this] Suc show ?thesis by (simp add: union_assoc)
  qed
qed

lemma mset_held_update:
  assumes "i < length ws"
  shows "mset (concat (map held (ws[i := v]))) + mset (held (ws ! i))
           = mset (concat (map held ws)) + mset (held v)"
  using mset_concat_update [of i "map held ws" "held v"] assms by (simp add: map_update)

lemma executing_update:
  assumes "i < length (workers_' p)"
  shows "executing (p\<lparr>workers_' := (workers_' p)[i := v]\<rparr>) + length (held (workers_' p ! i))
           = executing p + length (held v)"
proof -
  have "size (mset (concat (map held ((workers_' p)[i := v]))) + mset (held (workers_' p ! i)))
          = size (mset (concat (map held (workers_' p))) + mset (held v))"
    using mset_held_update [OF assms] by simp
  then show ?thesis by (simp add: executing_def)
qed

lemma unat_Suc_le: "unat (x + 1 :: size_t) \<le> Suc (unat x)"
  by (metis Suc_eq_plus1 le_refl unat_1 unat_add_lem unat_word_ariths(1) mod_less_eq_dividend)

lemma unat_Suc_eq: "unat (x :: size_t) < 2 ^ 64 - 1 \<Longrightarrow> unat (x + 1) = Suc (unat x)"
  by (simp add: unat_word_ariths)


lemma executing_cong: "workers_' p' = workers_' p \<Longrightarrow> executing p' = executing p"
  by (simp add: executing_def)

lemma counted_mono:
  assumes "counted k p" and "workers_' p' = workers_' p"
    and "tasks_completed_' p' = tasks_completed_' p" and "tasks_stolen_' p' = tasks_stolen_' p"
  shows "counted (Suc k) p'"
  using assms by (simp add: counted_def executing_def)

lemma step_counted:
  assumes "step e w = Some w'" and "counted k (pool w)" and "k < 2 ^ 64 - 1"
  shows "counted (Suc k) (pool w')"
proof (cases e)
  case (Submit prio inst f)
  from assms(1) [unfolded Submit] obtain r g' p'
    where s: "submit prio inst f (proc w) (pool w) = (r, g', p')"
      and w': "w' = w\<lparr>proc := g', pool := p'\<rparr>"
    by (rule step_SubmitE)
  from counted_mono [OF assms(2) submit_frame(1,4,5) [OF s]] w' show ?thesis by simp
next
  case (SubmitEnter prio inst f)
  from assms(1) [unfolded SubmitEnter] show ?thesis
    by (rule step_SubmitEnterE) (simp_all add: counted_mono [OF assms(2)])
next
  case (SubmitLeave k)
  from assms(1) [unfolded SubmitLeave] obtain prio inst f h g' p'
    where s: "submit_rest prio inst f (proc w) (pool w) = (h, g', p')"
      and w': "w' = w\<lparr>proc := g', pool := p',
                  inflight := take k (inflight w) @ drop (Suc k) (inflight w)\<rparr>"
    by (rule step_SubmitLeaveE)
  from counted_mono [OF assms(2) submit_rest_frame(1,4,5) [OF s]] w' show ?thesis by simp
next
  case (Poll i start)
  from assms(1) [unfolded Poll] obtain r p'
    where i: "i < length (workers_' (pool w))" and at: "workers_' (pool w) ! i = AtTop"
      and g: "get_task i start (pool w) = (r, p')"
      and w': "w' = w\<lparr>pool := p'\<lparr>workers_' := (workers_' p')[i :=
            (case r of Some t \<Rightarrow> Running t
                     | None \<Rightarrow> if leaves_loop p' then Exited else Parked)]\<rparr>\<rparr>"
    by (rule step_PollE)
  from g obtain gq qs st
    where p': "p' = (pool w)\<lparr>global_queue_' := gq, local_queues_' := qs, tasks_stolen_' := st\<rparr>"
      and st: "st = tasks_stolen_' (pool w) \<or>
           length (workers_' (pool w)) \<noteq> 1 \<and> st = tasks_stolen_' (pool w) + 1 \<and> r \<noteq> None"
    by (rule get_task_frame)
  let ?v = "case r of Some t \<Rightarrow> Running t | None \<Rightarrow> if leaves_loop p' then Exited else Parked"
  have ws: "workers_' p' = workers_' (pool w)" using p' by simp
  have ex: "executing (pool w') = executing (pool w) + length (held ?v)"
    using executing_update [of i p' ?v] i at w' ws executing_cong [OF ws] by simp
  have co: "tasks_completed_' (pool w') = tasks_completed_' (pool w)"
    using w' p' by simp
  have so: "tasks_stolen_' (pool w') = st"
    using w' p' by simp
  show ?thesis
  proof (cases r)
    case None
    with st have "st = tasks_stolen_' (pool w)" by simp
    moreover from None have "length (held ?v) = 0" by simp
    ultimately show ?thesis using assms(2) ex co so by (simp add: counted_def)
  next
    case (Some t)
    then have "length (held ?v) = 1" by simp
    moreover have "unat st \<le> Suc (unat (tasks_stolen_' (pool w)))"
      using st unat_Suc_le [of "tasks_stolen_' (pool w)"] by auto
    ultimately show ?thesis using assms(2) ex co so by (simp add: counted_def)
  qed
next
  case (Run i)
  from assms(1) [unfolded Run] obtain t g' p'
    where i: "i < length (workers_' (pool w))" and at: "workers_' (pool w) ! i = Running t"
      and wt: "wrapped_task t (proc w) (pool w) = (None, g', p')"
      and w': "w' = w\<lparr>proc := g', pool := p'\<lparr>workers_' := (workers_' p')[i := AtTop]\<rparr>\<rparr>"
    by (rule step_RunE)
  note p' = wrapped_task_frame(4) [OF wt]
  have ws: "workers_' p' = workers_' (pool w)" using p' by simp
  have ex: "executing (pool w') + 1 = executing (pool w)"
    using executing_update [of i p' AtTop] i at w' ws executing_cong [OF ws] by simp
  have "unat (tasks_completed_' (pool w)) < 2 ^ 64 - 1"
    using assms(2,3) by (simp add: counted_def)
  then have co: "unat (tasks_completed_' (pool w')) = Suc (unat (tasks_completed_' (pool w)))"
    using w' p' unat_Suc_eq [of "tasks_completed_' (pool w)"] by simp
  have so: "tasks_stolen_' (pool w') = tasks_stolen_' (pool w)"
    using w' p' by simp
  from assms(2) ex co so show ?thesis by (simp add: counted_def)
next
  case (Wake i)
  from assms(1) [unfolded Wake] show ?thesis
  proof (rule step_WakeE)
    assume i: "i < length (workers_' (pool w))" and at: "workers_' (pool w) ! i = Parked"
      and w': "w' = w\<lparr>pool := (pool w)\<lparr>workers_' := (workers_' (pool w))[i :=
            (if leaves_loop (pool w) then Exited else AtTop)]\<rparr>\<rparr>"
    let ?v = "if leaves_loop (pool w) then Exited else AtTop"
    have "executing (pool w') = executing (pool w)"
      using executing_update [of i "pool w" ?v] i at w' by simp
    moreover have "tasks_completed_' (pool w') = tasks_completed_' (pool w)"
      "tasks_stolen_' (pool w') = tasks_stolen_' (pool w)"
      using w' by simp_all
    ultimately show ?thesis using assms(2) by (simp add: counted_def)
  qed
next
  case WaitAll
  from assms(1) [unfolded WaitAll] have "w' = w" by (rule step_WaitAllE)
  with counted_mono [OF assms(2)] show ?thesis by simp
next
  case ShutdownGraceful
  from assms(1) [unfolded ShutdownGraceful] show ?thesis
    by (rule step_ShutdownGracefulE) (simp_all add: counted_mono [OF assms(2)])
next
  case GracefulJoined
  from assms(1) [unfolded GracefulJoined] show ?thesis
    by (rule step_GracefulJoinedE) (simp add: counted_mono [OF assms(2)])
next
  case ShutdownImmediate
  from assms(1) [unfolded ShutdownImmediate] show ?thesis
    by (rule step_ShutdownImmediateE) (simp_all add: counted_mono [OF assms(2)])
next
  case ImmediateJoined
  from assms(1) [unfolded ImmediateJoined] show ?thesis
    by (rule step_ImmediateJoinedE)
      (simp add: counted_mono [OF assms(2)] shutdown_immediate_end_fields)
qed

lemma exec_counted:
  assumes "exec evs w = Some w'" and "counted k (pool w)" and "k + length evs < 2 ^ 64"
  shows "counted (k + length evs) (pool w')"
  using assms
proof (induction evs arbitrary: w k)
  case Nil
  then show ?case by simp
next
  case (Cons e evs)
  from Cons.prems(1) obtain u where u: "step e w = Some u" and rest: "exec evs u = Some w'"
    by (auto split: option.splits)
  from Cons.prems(3) have k: "k < 2 ^ 64 - 1" and k': "Suc k + length evs < 2 ^ 64"
    by simp_all
  from step_counted [OF u Cons.prems(2) k] have "counted (Suc k) (pool u)" .
  from Cons.IH [OF rest this k'] show ?case by simp
qed

lemma boot_counted:
  assumes "ThreadPool_ctor n = Inr p0"
  shows "counted 0 (pool (boot g p0))"
  using ThreadPool_ctor_fields(1,8,9) [OF assms]
  by (simp add: counted_def boot_def executing_def)

text \<open>
  C4, amended. Along every trace of the program (of fewer than \<open>2 ^ 64\<close> actions, so that
  no counter has wrapped around), the stolen counter is at most the completed counter plus
  the number of workers that are executing a task; in particular stolen \<open>\<le>\<close> completed in
  every state in which no worker is executing a task.
\<close>

theorem stolen_le_completed_plus_executing:
  assumes "ThreadPool_ctor n = Inr p0" and "exec evs (boot g p0) = Some w"
    and "length evs < 2 ^ 64"
  shows "unat (tasks_stolen_' (pool w)) \<le> unat (tasks_completed_' (pool w)) + executing (pool w) \<and>
         (executing (pool w) = 0 \<longrightarrow> tasks_stolen_' (pool w) \<le> tasks_completed_' (pool w))"
proof -
  from exec_counted [OF assms(2) boot_counted [OF assms(1)]] assms(3)
  have "counted (length evs) (pool w)" by simp
  then show ?thesis by (simp add: counted_def word_le_nat_alt)
qed

subsection \<open>Stolen and completed tasks\<close>

text \<open>
  C4 as stated fails. \<open>get_task\<close> counts a steal when the task is taken, before it runs:
  in a pool of two workers, after one MEDIUM submission (routed to deque 0) and a poll of
  worker 1, which steals the task, \<open>tasks_stolen_\<close> is 1 and \<open>tasks_completed_\<close> is
  still 0.
\<close>

theorem stolen_le_completed_counterexample:
  "exec [Submit MEDIUM 0 (Returns 1), Poll 1 0] (boot process_start (projr (ThreadPool_ctor 2))) \<noteq> None \<and>
   tasks_stolen_' (pool (the (exec [Submit MEDIUM 0 (Returns 1), Poll 1 0]
       (boot process_start (projr (ThreadPool_ctor 2)))))) = 1 \<and>
   tasks_completed_' (pool (the (exec [Submit MEDIUM 0 (Returns 1), Poll 1 0]
       (boot process_start (projr (ThreadPool_ctor 2)))))) = 0 \<and>
   \<not> tasks_stolen_' (pool (the (exec [Submit MEDIUM 0 (Returns 1), Poll 1 0]
       (boot process_start (projr (ThreadPool_ctor 2))))))
     \<le> tasks_completed_' (pool (the (exec [Submit MEDIUM 0 (Returns 1), Poll 1 0]
       (boot process_start (projr (ThreadPool_ctor 2))))))"
  by code_simp

theorem stolen_le_completed_plus_executing_witness:
  "ThreadPool_ctor 2 = Inr (projr (ThreadPool_ctor 2)) \<and>
   exec [Submit MEDIUM 0 (Returns 1), Poll 1 0] (boot process_start (projr (ThreadPool_ctor 2))) \<noteq> None \<and>
   length [Submit MEDIUM 0 (Returns 1), Poll 1 0] < (2 :: nat) ^ 64 \<and>
   executing (pool (the (exec [Submit MEDIUM 0 (Returns 1), Poll 1 0]
       (boot process_start (projr (ThreadPool_ctor 2)))))) = 1 \<and>
   unat (tasks_stolen_' (pool (the (exec [Submit MEDIUM 0 (Returns 1), Poll 1 0]
       (boot process_start (projr (ThreadPool_ctor 2))))))) \<le>
   unat (tasks_completed_' (pool (the (exec [Submit MEDIUM 0 (Returns 1), Poll 1 0]
       (boot process_start (projr (ThreadPool_ctor 2))))))) + 1 \<and>
   executing (pool (the (exec [Submit MEDIUM 0 (Returns 1), Poll 1 0, Run 1]
       (boot process_start (projr (ThreadPool_ctor 2)))))) = 0 \<and>
   tasks_stolen_' (pool (the (exec [Submit MEDIUM 0 (Returns 1), Poll 1 0, Run 1]
       (boot process_start (projr (ThreadPool_ctor 2)))))) \<le>
   tasks_completed_' (pool (the (exec [Submit MEDIUM 0 (Returns 1), Poll 1 0, Run 1]
       (boot process_start (projr (ThreadPool_ctor 2))))))"
proof -
  let ?tr = "[Submit MEDIUM 0 (Returns 1), Poll 1 0]"
  let ?tr' = "[Submit MEDIUM 0 (Returns 1), Poll 1 0, Run 1]"
  let ?w0 = "boot process_start (projr (ThreadPool_ctor 2))"
  have c: "ThreadPool_ctor 2 = Inr (projr (ThreadPool_ctor 2))"
    by code_simp
  have n: "exec ?tr ?w0 \<noteq> None" and n': "exec ?tr' ?w0 \<noteq> None"
    by code_simp+
  then have e: "exec ?tr ?w0 = Some (the (exec ?tr ?w0))"
    and e': "exec ?tr' ?w0 = Some (the (exec ?tr' ?w0))"
    by simp_all
  have l: "length ?tr < (2 :: nat) ^ 64" and l': "length ?tr' < (2 :: nat) ^ 64"
    by simp_all
  have x: "executing (pool (the (exec ?tr ?w0))) = 1"
    and x': "executing (pool (the (exec ?tr' ?w0))) = 0"
    by code_simp+
  from stolen_le_completed_plus_executing [OF c e l]
    stolen_le_completed_plus_executing [OF c e' l'] c n x x'
  show ?thesis by simp
qed

subsection \<open>The active and pending counters\<close>

lemma step_active_eq_pending:
  assumes "step e w = Some w'" and "e \<noteq> ImmediateJoined"
    and "active_tasks_' (pool w) = pending_tasks_' (pool w)"
  shows "active_tasks_' (pool w') = pending_tasks_' (pool w')"
proof (cases e)
  case (Submit prio inst f)
  from assms(1) [unfolded Submit] obtain r g' p'
    where s: "submit prio inst f (proc w) (pool w) = (r, g', p')"
      and w': "w' = w\<lparr>proc := g', pool := p'\<rparr>"
    by (rule step_SubmitE)
  from submit_frame(7) [OF s] w' assms(3) show ?thesis by simp
next
  case (SubmitEnter prio inst f)
  from assms(1) [unfolded SubmitEnter] show ?thesis
    by (rule step_SubmitEnterE) (use assms(3) in simp_all)
next
  case (SubmitLeave k)
  from assms(1) [unfolded SubmitLeave] obtain prio inst f h g' p'
    where s: "submit_rest prio inst f (proc w) (pool w) = (h, g', p')"
      and w': "w' = w\<lparr>proc := g', pool := p',
                  inflight := take k (inflight w) @ drop (Suc k) (inflight w)\<rparr>"
    by (rule step_SubmitLeaveE)
  from submit_rest_frame(7) [OF s] w' assms(3) show ?thesis by simp
next
  case (Poll i start)
  from assms(1) [unfolded Poll] obtain r p'
    where g: "get_task i start (pool w) = (r, p')"
      and w': "w' = w\<lparr>pool := p'\<lparr>workers_' := (workers_' p')[i :=
            (case r of Some t \<Rightarrow> Running t
                     | None \<Rightarrow> if leaves_loop p' then Exited else Parked)]\<rparr>\<rparr>"
    by (rule step_PollE)
  from g obtain gq qs st
    where "p' = (pool w)\<lparr>global_queue_' := gq, local_queues_' := qs, tasks_stolen_' := st\<rparr>"
    by (rule get_task_frame)
  with w' assms(3) show ?thesis by simp
next
  case (Run i)
  from assms(1) [unfolded Run] obtain t g' p'
    where wt: "wrapped_task t (proc w) (pool w) = (None, g', p')"
      and w': "w' = w\<lparr>proc := g', pool := p'\<lparr>workers_' := (workers_' p')[i := AtTop]\<rparr>\<rparr>"
    by (rule step_RunE)
  from wrapped_task_frame(4) [OF wt] w' assms(3) show ?thesis by simp
next
  case (Wake i)
  from assms(1) [unfolded Wake] show ?thesis by (rule step_WakeE) (use assms(3) in simp)
next
  case WaitAll
  from assms(1) [unfolded WaitAll] have "w' = w" by (rule step_WaitAllE)
  with assms(3) show ?thesis by simp
next
  case ShutdownGraceful
  from assms(1) [unfolded ShutdownGraceful] show ?thesis
    by (rule step_ShutdownGracefulE) (use assms(3) in simp_all)
next
  case GracefulJoined
  from assms(1) [unfolded GracefulJoined] show ?thesis
    by (rule step_GracefulJoinedE) (use assms(3) in simp)
next
  case ShutdownImmediate
  from assms(1) [unfolded ShutdownImmediate] show ?thesis
    by (rule step_ShutdownImmediateE) (use assms(3) in simp_all)
next
  case ImmediateJoined
  with assms(2) show ?thesis by simp
qed

text \<open>
  C5. Every action other than the end of \<open>shutdown_immediate\<close> keeps
  \<open>active_tasks_ = pending_tasks_\<close> (lemma \<open>step_active_eq_pending\<close>). The end of
  \<open>shutdown_immediate\<close> does not: it resets \<open>pending_tasks_\<close> and leaves
  \<open>active_tasks_\<close>. In a pool of one worker: the worker finds nothing and parks, one
  task is submitted, \<open>shutdown_immediate\<close> is called, the worker wakes up, sees
  \<open>immediate_stop_\<close> and leaves, the call drops the queued task. Then
  \<open>active_tasks()\<close> is 1 and \<open>pending_tasks()\<close> is 0, where both were 1 before the drain.
\<close>

theorem shutdown_immediate_active_not_pending:
  "exec [Poll 0 0, Submit MEDIUM 0 (Returns 1), ShutdownImmediate, Wake 0, ImmediateJoined]
     (boot process_start (projr (ThreadPool_ctor 1))) \<noteq> None \<and>
   active_tasks (pool (the (exec
     [Poll 0 0, Submit MEDIUM 0 (Returns 1), ShutdownImmediate, Wake 0]
     (boot process_start (projr (ThreadPool_ctor 1)))))) = 1 \<and>
   pending_tasks (pool (the (exec
     [Poll 0 0, Submit MEDIUM 0 (Returns 1), ShutdownImmediate, Wake 0]
     (boot process_start (projr (ThreadPool_ctor 1)))))) = 1 \<and>
   active_tasks (pool (the (exec
     [Poll 0 0, Submit MEDIUM 0 (Returns 1), ShutdownImmediate, Wake 0, ImmediateJoined]
     (boot process_start (projr (ThreadPool_ctor 1)))))) = 1 \<and>
   pending_tasks (pool (the (exec
     [Poll 0 0, Submit MEDIUM 0 (Returns 1), ShutdownImmediate, Wake 0, ImmediateJoined]
     (boot process_start (projr (ThreadPool_ctor 1)))))) = 0"
  by code_simp

subsection \<open>Several pools\<close>

text \<open>
  C6 as stated fails. The round-robin counter is the function-local static of \<open>submit\<close>,
  shared by all pool objects. With two pools of two workers each, a MEDIUM submission to
  pool 1 goes to its deque 0; after one MEDIUM submission (same instantiation) to pool 0 it
  goes to deque 1 of pool 1 instead, and the static counter has moved from 0 to 1.
\<close>

theorem submit_on_other_pool_routing_counterexample:
  "map length (local_queues_' (pools (snd (submit_on 1 MEDIUM 0 (Returns 2)
       \<lparr>statics = process_start, pools = [projr (ThreadPool_ctor 2), projr (ThreadPool_ctor 2)]\<rparr>)) ! 1))
     = [1, 0] \<and>
   map length (local_queues_' (pools (snd (submit_on 1 MEDIUM 0 (Returns 2)
       (snd (submit_on 0 MEDIUM 0 (Returns 1)
         \<lparr>statics = process_start, pools = [projr (ThreadPool_ctor 2), projr (ThreadPool_ctor 2)]\<rparr>)))) ! 1))
     = [0, 1] \<and>
   counter (statics \<lparr>statics = process_start,
       pools = [projr (ThreadPool_ctor 2), projr (ThreadPool_ctor 2)]\<rparr>) 0 = 0 \<and>
   counter (statics (snd (submit_on 0 MEDIUM 0 (Returns 1)
       \<lparr>statics = process_start, pools = [projr (ThreadPool_ctor 2), projr (ThreadPool_ctor 2)]\<rparr>))) 0 = 1"
  by code_simp

lemma submit_on_accepted_low:
  assumes "b < length (pools Q)" and "prio \<noteq> HIGH"
    and "\<not> stop_' (pools Q ! b)" and "\<not> immediate_stop_' (pools Q ! b)"
  shows "local_queues_' (pools (snd (submit_on b prio inst f Q)) ! b) =
           (local_queues_' (pools Q ! b))
             [unat (counter (statics Q) inst) mod length (workers_' (pools Q ! b)) :=
                \<lparr>shared = length (futures (statics Q)), bound = f\<rparr> #
                local_queues_' (pools Q ! b) ! (unat (counter (statics Q) inst) mod length (workers_' (pools Q ! b)))]"
    and "counter (statics (snd (submit_on b prio inst f Q)))
           = (counter (statics Q))(inst := counter (statics Q) inst + 1)"
proof -
  obtain h g' p' where r: "submit_rest prio inst f (statics Q) (pools Q ! b) = (h, g', p')"
    by (cases "submit_rest prio inst f (statics Q) (pools Q ! b)")
  with assms(3,4) have "snd (submit_on b prio inst f Q) = \<lparr>statics = g', pools = (pools Q)[b := p']\<rparr>"
    by (simp add: submit_on_def submit_def)
  with assms(1) have p: "pools (snd (submit_on b prio inst f Q)) ! b = p'"
    and g: "statics (snd (submit_on b prio inst f Q)) = g'"
    by simp_all
  from r assms(2) have "local_queues_' p' =
           (local_queues_' (pools Q ! b))
             [unat (counter (statics Q) inst) mod length (workers_' (pools Q ! b)) :=
                \<lparr>shared = length (futures (statics Q)), bound = f\<rparr> #
                local_queues_' (pools Q ! b) ! (unat (counter (statics Q) inst) mod length (workers_' (pools Q ! b)))]"
    and "counter g' = (counter (statics Q))(inst := counter (statics Q) inst + 1)"
    by (auto simp: submit_rest_def Let_def push_def)
  with p g show "local_queues_' (pools (snd (submit_on b prio inst f Q)) ! b) =
           (local_queues_' (pools Q ! b))
             [unat (counter (statics Q) inst) mod length (workers_' (pools Q ! b)) :=
                \<lparr>shared = length (futures (statics Q)), bound = f\<rparr> #
                local_queues_' (pools Q ! b) ! (unat (counter (statics Q) inst) mod length (workers_' (pools Q ! b)))]"
    and "counter (statics (snd (submit_on b prio inst f Q)))
           = (counter (statics Q))(inst := counter (statics Q) inst + 1)"
    by simp_all
qed

lemma submit_on_other:
  assumes "a < length (pools P)" and "b < length (pools P)" and "a \<noteq> b"
  shows "pools (snd (submit_on a prio inst f P)) ! b = pools P ! b"
    and "length (pools (snd (submit_on a prio inst f P))) = length (pools P)"
proof -
  obtain r g' p' where "submit prio inst f (statics P) (pools P ! a) = (r, g', p')"
    by (cases "submit prio inst f (statics P) (pools P ! a)")
  then have "snd (submit_on a prio inst f P) = \<lparr>statics = g', pools = (pools P)[a := p']\<rparr>"
    by (simp add: submit_on_def)
  with assms show "pools (snd (submit_on a prio inst f P)) ! b = pools P ! b"
    and "length (pools (snd (submit_on a prio inst f P))) = length (pools P)"
    by simp_all
qed

lemma submit_on_counter_unchanged:
  assumes "prio = HIGH \<or> stop_' (pools P ! a) \<or> immediate_stop_' (pools P ! a)"
  shows "counter (statics (snd (submit_on a prio inst f P))) = counter (statics P)"
proof -
  obtain r g' p' where s: "submit prio inst f (statics P) (pools P ! a) = (r, g', p')"
    by (cases "submit prio inst f (statics P) (pools P ! a)")
  then have g: "statics (snd (submit_on a prio inst f P)) = g'"
    by (simp add: submit_on_def)
  from s have "counter g' = counter (statics P)"
  proof (cases rule: submit_cases)
    case stopped
    then show ?thesis by simp
  next
    case (accepted h)
    with assms have "prio = HIGH" by simp
    with accepted(3) show ?thesis by (auto simp: submit_rest_def Let_def)
  qed
  with g show ?thesis by simp
qed

text \<open>
  C6, amended. A submission to one pool leaves every other pool object as it is. The
  round-robin counter is not part of any pool: it is a static of \<open>submit\<close>, one per
  template instantiation and shared by all pools. An accepted MEDIUM or LOW submission
  through instantiation \<open>inst\<close> goes to the deque numbered by the counter of \<open>inst\<close> modulo
  the pool's number of workers and adds one to that counter; a HIGH or a rejected submission
  leaves all the counters as they are. So after an accepted MEDIUM or LOW submission through
  \<open>inst\<close> to pool \<open>a\<close>, the next accepted MEDIUM or LOW submission to another pool \<open>b\<close>
  goes to deque \<open>(c + 1) mod N\<close> of \<open>b\<close> if it comes through \<open>inst\<close> too, where \<open>c\<close> was
  the counter of \<open>inst\<close> before and \<open>N\<close> is the number of workers of \<open>b\<close>, and to the
  deque its own instantiation's counter names, as before, if it comes through another one.
\<close>

theorem submit_on_frame:
  assumes "a < length (pools P)" and "b < length (pools P)" and "a \<noteq> b"
    and "submit_on a prio inst f P = (r, P')"
  shows "pools P' ! b = pools P ! b \<and>
         counter (statics P') =
           (if prio \<noteq> HIGH \<and> \<not> stop_' (pools P ! a) \<and> \<not> immediate_stop_' (pools P ! a)
            then (counter (statics P))(inst := counter (statics P) inst + 1)
            else counter (statics P)) \<and>
         (prio \<noteq> HIGH \<and> \<not> stop_' (pools P ! a) \<and> \<not> immediate_stop_' (pools P ! a) \<longrightarrow>
            local_queues_' (pools P' ! a) =
              (local_queues_' (pools P ! a))
                [unat (counter (statics P) inst) mod length (workers_' (pools P ! a)) :=
                   \<lparr>shared = length (futures (statics P)), bound = f\<rparr> #
                   local_queues_' (pools P ! a) ! (unat (counter (statics P) inst) mod length (workers_' (pools P ! a)))]) \<and>
         (\<forall>prio' inst' f'.
            prio' \<noteq> HIGH \<and> \<not> stop_' (pools P ! b) \<and> \<not> immediate_stop_' (pools P ! b) \<longrightarrow>
            local_queues_' (pools (snd (submit_on b prio' inst' f' P')) ! b) =
              (local_queues_' (pools P ! b))
                [unat (if inst' = inst \<and> prio \<noteq> HIGH \<and> \<not> stop_' (pools P ! a) \<and>
                          \<not> immediate_stop_' (pools P ! a)
                       then counter (statics P) inst + 1 else counter (statics P) inst')
                   mod length (workers_' (pools P ! b)) :=
                   \<lparr>shared = length (futures (statics P')), bound = f'\<rparr> #
                   local_queues_' (pools P ! b) !
                     (unat (if inst' = inst \<and> prio \<noteq> HIGH \<and> \<not> stop_' (pools P ! a) \<and>
                               \<not> immediate_stop_' (pools P ! a)
                            then counter (statics P) inst + 1 else counter (statics P) inst')
                      mod length (workers_' (pools P ! b)))])"
proof -
  from assms(4) have P': "P' = snd (submit_on a prio inst f P)" by simp
  have other: "pools P' ! b = pools P ! b" and len: "b < length (pools P')"
    using submit_on_other [OF assms(1,2,3), of prio inst f] assms(2) P' by simp_all
  let ?acc = "prio \<noteq> HIGH \<and> \<not> stop_' (pools P ! a) \<and> \<not> immediate_stop_' (pools P ! a)"
  have cnt: "counter (statics P') =
           (if ?acc then (counter (statics P))(inst := counter (statics P) inst + 1)
            else counter (statics P))"
  proof (cases ?acc)
    case True
    with submit_on_accepted_low(2) [OF assms(1), of prio inst f] P' show ?thesis by simp
  next
    case False
    then have "prio = HIGH \<or> stop_' (pools P ! a) \<or> immediate_stop_' (pools P ! a)" by blast
    from submit_on_counter_unchanged [OF this, of inst f] P'
    have "counter (statics P') = counter (statics P)" by simp
    with False show ?thesis by auto
  qed
  have own: "?acc \<longrightarrow> local_queues_' (pools P' ! a) =
              (local_queues_' (pools P ! a))
                [unat (counter (statics P) inst) mod length (workers_' (pools P ! a)) :=
                   \<lparr>shared = length (futures (statics P)), bound = f\<rparr> #
                   local_queues_' (pools P ! a) ! (unat (counter (statics P) inst) mod length (workers_' (pools P ! a)))]"
    using submit_on_accepted_low(1) [OF assms(1), of prio inst f] P' by simp
  have next_b: "local_queues_' (pools (snd (submit_on b prio' inst' f' P')) ! b) =
              (local_queues_' (pools P ! b))
                [unat (if inst' = inst \<and> ?acc
                       then counter (statics P) inst + 1 else counter (statics P) inst')
                   mod length (workers_' (pools P ! b)) :=
                   \<lparr>shared = length (futures (statics P')), bound = f'\<rparr> #
                   local_queues_' (pools P ! b) !
                     (unat (if inst' = inst \<and> ?acc
                            then counter (statics P) inst + 1 else counter (statics P) inst')
                      mod length (workers_' (pools P ! b)))]"
    if "prio' \<noteq> HIGH" "\<not> stop_' (pools P ! b)" "\<not> immediate_stop_' (pools P ! b)"
    for prio' inst' f'
  proof -
    have c': "counter (statics P') inst' =
        (if inst' = inst \<and> ?acc then counter (statics P) inst + 1 else counter (statics P) inst')"
      using cnt by simp
    from that other have "\<not> stop_' (pools P' ! b)" "\<not> immediate_stop_' (pools P' ! b)"
      by simp_all
    from submit_on_accepted_low(1) [OF len that(1) this, of inst' f'] other c'
    show ?thesis by simp
  qed
  from other cnt own next_b show ?thesis by blast
qed

theorem submit_on_frame_witness:
  "(0 :: nat) < length (pools \<lparr>statics = process_start,
       pools = [projr (ThreadPool_ctor 2), projr (ThreadPool_ctor 3)]\<rparr>) \<and>
   (1 :: nat) < length (pools \<lparr>statics = process_start,
       pools = [projr (ThreadPool_ctor 2), projr (ThreadPool_ctor 3)]\<rparr>) \<and>
   (0 :: nat) \<noteq> 1 \<and> LOW \<noteq> HIGH \<and> MEDIUM \<noteq> HIGH \<and>
   \<not> stop_' (projr (ThreadPool_ctor 2)) \<and> \<not> immediate_stop_' (projr (ThreadPool_ctor 2)) \<and>
   \<not> stop_' (projr (ThreadPool_ctor 3)) \<and> \<not> immediate_stop_' (projr (ThreadPool_ctor 3)) \<and>
   pools (snd (submit_on 0 LOW 5 (Returns 1) \<lparr>statics = process_start,
       pools = [projr (ThreadPool_ctor 2), projr (ThreadPool_ctor 3)]\<rparr>)) ! 1
     = projr (ThreadPool_ctor 3) \<and>
   counter (statics (snd (submit_on 0 LOW 5 (Returns 1) \<lparr>statics = process_start,
       pools = [projr (ThreadPool_ctor 2), projr (ThreadPool_ctor 3)]\<rparr>))) 5 = 1 \<and>
   counter (statics (snd (submit_on 0 LOW 5 (Returns 1) \<lparr>statics = process_start,
       pools = [projr (ThreadPool_ctor 2), projr (ThreadPool_ctor 3)]\<rparr>))) 4 = 0 \<and>
   local_queues_' (pools (snd (submit_on 1 MEDIUM 5 (Returns 2)
       (snd (submit_on 0 LOW 5 (Returns 1) \<lparr>statics = process_start,
          pools = [projr (ThreadPool_ctor 2), projr (ThreadPool_ctor 3)]\<rparr>)))) ! 1)
     = [[], [\<lparr>shared = 1, bound = Returns 2\<rparr>], []] \<and>
   local_queues_' (pools (snd (submit_on 1 MEDIUM 4 (Returns 2)
       (snd (submit_on 0 LOW 5 (Returns 1) \<lparr>statics = process_start,
          pools = [projr (ThreadPool_ctor 2), projr (ThreadPool_ctor 3)]\<rparr>)))) ! 1)
     = [[\<lparr>shared = 1, bound = Returns 2\<rparr>], [], []]"
proof -
  let ?P = "\<lparr>statics = process_start, pools = [projr (ThreadPool_ctor 2), projr (ThreadPool_ctor 3)]\<rparr>"
  have s: "submit_on 0 LOW 5 (Returns 1) ?P
             = (fst (submit_on 0 LOW 5 (Returns 1) ?P), snd (submit_on 0 LOW 5 (Returns 1) ?P))"
    by simp
  have f: "\<not> stop_' (projr (ThreadPool_ctor 2))" "\<not> immediate_stop_' (projr (ThreadPool_ctor 2))"
    "\<not> stop_' (projr (ThreadPool_ctor 3))" "\<not> immediate_stop_' (projr (ThreadPool_ctor 3))"
    by code_simp+
  have c: "counter process_start 5 = 0" "counter process_start 4 = 0"
    by (simp_all add: process_start_def)
  have q: "local_queues_' (pools (snd (submit_on 1 MEDIUM 5 (Returns 2)
       (snd (submit_on 0 LOW 5 (Returns 1) ?P)))) ! 1)
     = [[], [\<lparr>shared = 1, bound = Returns 2\<rparr>], []]"
    "local_queues_' (pools (snd (submit_on 1 MEDIUM 4 (Returns 2)
       (snd (submit_on 0 LOW 5 (Returns 1) ?P)))) ! 1)
     = [[\<lparr>shared = 1, bound = Returns 2\<rparr>], [], []]"
    by code_simp+
  from submit_on_frame [of 0 ?P 1 LOW 5 "Returns 1", OF _ _ _ s]
  have "pools (snd (submit_on 0 LOW 5 (Returns 1) ?P)) ! 1 = projr (ThreadPool_ctor 3)"
    and "counter (statics (snd (submit_on 0 LOW 5 (Returns 1) ?P))) 5 = 1"
    and "counter (statics (snd (submit_on 0 LOW 5 (Returns 1) ?P))) 4 = 0"
    using f c by simp_all
  with f q show ?thesis by simp
qed

subsection \<open>Envelopes and their shared states\<close>

lemma mset_pq_push: "mset (pq_push x q) = add_mset x (mset q)"
  by (induction q) simp_all

lemma handles_ok_alt:
  "handles_ok w \<longleftrightarrow>
     distinct (map shared (envelopes (pool w))) \<and>
     (\<forall>e \<in># mset (envelopes (pool w)).
        shared e < length (futures (proc w)) \<and> futures (proc w) ! shared e = NotReady)"
  by (simp add: handles_ok_def list_all_iff)

lemma distinct_map_mset_eq:
  assumes "mset xs = mset ys"
  shows "distinct (map f xs) \<longleftrightarrow> distinct (map f ys)"
proof -
  from assms have "mset (map f xs) = mset (map f ys)" by simp
  then show ?thesis by (rule mset_eq_imp_distinct_iff)
qed

lemma distinct_map_mset_add:
  assumes "mset xs = add_mset x (mset ys)"
  shows "distinct (map f xs) \<longleftrightarrow> f x \<notin> f ` set ys \<and> distinct (map f ys)"
proof -
  from assms have "mset xs = mset (x # ys)" by simp
  from distinct_map_mset_eq [OF this, of f] show ?thesis by simp
qed

lemma handles_ok_same:
  assumes "handles_ok w" and "mset (envelopes (pool w')) = mset (envelopes (pool w))"
    and "futures (proc w') = futures (proc w)"
  shows "handles_ok w'"
  using assms distinct_map_mset_eq [OF assms(2), of shared]
  by (simp add: handles_ok_alt)

lemma concat_held_replicate: "concat (map held (replicate n AtTop)) = []"
  by (induction n) simp_all

lemma concat_replicate_Nil: "concat (replicate n []) = []"
  by (induction n) simp_all

lemma mset_envelopes:
  "mset (envelopes p) =
     mset (map task (global_queue_' p)) + mset (concat (local_queues_' p)) +
     mset (concat (map held (workers_' p)))"
  by (simp add: envelopes_def)

text \<open>A poll moves an envelope from a queue into the worker's hands, or changes nothing.\<close>

lemma get_task_spec_envelopes:
  assumes "i < length (workers_' p)" and "length (local_queues_' p) = length (workers_' p)"
    and "get_task_spec i start p = (r, p')"
  shows "workers_' p' = workers_' p
     \<and> mset (map task (global_queue_' p')) + mset (concat (local_queues_' p'))
          + mset (case r of Some t \<Rightarrow> [t] | None \<Rightarrow> [])
        = mset (map task (global_queue_' p)) + mset (concat (local_queues_' p))"
proof (cases "global_queue_' p \<noteq> []")
  case True
  then obtain x xs where gq: "global_queue_' p = x # xs" by (cases "global_queue_' p") auto
  with assms(3) have "r = Some (task x)" "p' = p\<lparr>global_queue_' := xs\<rparr>"
    by (simp_all add: get_task_spec_def)
  with gq show ?thesis by simp
next
  case g: False
  show ?thesis
  proof (cases "local_queues_' p ! i \<noteq> []")
    case True
    then obtain x xs where q: "local_queues_' p ! i = x # xs" by (cases "local_queues_' p ! i") auto
    with assms(3) g have r: "r = Some x" and p': "p' = p\<lparr>local_queues_' := (local_queues_' p)[i := xs]\<rparr>"
      by (simp_all add: get_task_spec_def)
    from assms(1,2) have "i < length (local_queues_' p)" by simp
    from mset_concat_update [OF this, of xs] q
    have "mset (concat ((local_queues_' p)[i := xs])) + {#x#} = mset (concat (local_queues_' p))"
      by simp
    with r p' g show ?thesis by simp
  next
    case l: False
    let ?f = "find (\<lambda>t. t \<noteq> i \<and> local_queues_' p ! t \<noteq> []) (scan_order start (length (workers_' p)))"
    show ?thesis
    proof (cases ?f)
      case None
      with assms(3) g l have "r = None" "p' = p" by (simp_all add: get_task_spec_def)
      then show ?thesis by simp
    next
      case (Some t)
      then have t: "t \<in> set (scan_order start (length (workers_' p)))" and ne: "local_queues_' p ! t \<noteq> []"
        by (auto simp: find_Some_iff)
      have "0 < length (workers_' p)" using assms(1) by linarith
      with t have "t < length (workers_' p)" by (simp add: set_scan_order)
      with assms(2) have tl: "t < length (local_queues_' p)" by simp
      from ne obtain xs x where q: "local_queues_' p ! t = xs @ [x]"
        by (cases "local_queues_' p ! t" rule: rev_cases) auto
      with assms(3) g l Some have r: "r = Some x"
        and p': "p' = p\<lparr>local_queues_' := (local_queues_' p)[t := xs], tasks_stolen_' := tasks_stolen_' p + 1\<rparr>"
        by (simp_all add: get_task_spec_def)
      from mset_concat_update [OF tl, of xs] q
      have "mset (concat ((local_queues_' p)[t := xs])) + {#x#} = mset (concat (local_queues_' p))"
        by simp
      with r p' g show ?thesis by simp
    qed
  qed
qed

lemma Poll_envelopes:
  assumes "i < length (workers_' p)" and "length (local_queues_' p) = length (workers_' p)"
    and "workers_' p ! i = AtTop" and "get_task i start p = (r, p')"
  shows "mset (envelopes (p'\<lparr>workers_' := (workers_' p')[i :=
            (case r of Some t \<Rightarrow> Running t
                     | None \<Rightarrow> if leaves_loop p' then Exited else Parked)]\<rparr>)) = mset (envelopes p)"
proof -
  let ?v = "case r of Some t \<Rightarrow> Running t | None \<Rightarrow> if leaves_loop p' then Exited else Parked"
  from assms(4) get_task_spec_eq [OF assms(1), of start]
  have "get_task_spec i start p = (r, p')" by simp
  from get_task_spec_envelopes [OF assms(1,2) this]
  have ws: "workers_' p' = workers_' p"
    and q: "mset (map task (global_queue_' p')) + mset (concat (local_queues_' p'))
          + mset (case r of Some t \<Rightarrow> [t] | None \<Rightarrow> [])
        = mset (map task (global_queue_' p)) + mset (concat (local_queues_' p))"
    by simp_all
  have hv: "held ?v = (case r of Some t \<Rightarrow> [t] | None \<Rightarrow> [])"
    by (cases r) simp_all
  from mset_held_update [OF assms(1), of ?v] assms(3) hv
  have "mset (concat (map held ((workers_' p)[i := ?v])))
          = mset (concat (map held (workers_' p))) + mset (case r of Some t \<Rightarrow> [t] | None \<Rightarrow> [])"
    by simp
  with q ws show ?thesis
    by (simp add: mset_envelopes ac_simps)
qed

lemma submit_rest_envelopes:
  assumes "length (local_queues_' p) = length (workers_' p)" and "0 < length (workers_' p)"
    and "submit_rest prio inst f g p = (h, g', p')"
  shows "mset (envelopes p') = add_mset \<lparr>shared = length (futures g), bound = f\<rparr> (mset (envelopes p))"
    and "futures g' = futures g @ [NotReady]" and "h = length (futures g)"
proof -
  let ?e = "\<lparr>shared = length (futures g), bound = f\<rparr>"
  have "mset (envelopes p') = add_mset ?e (mset (envelopes p)) \<and> futures g' = futures g @ [NotReady]
          \<and> h = length (futures g)"
  proof (cases "prio = HIGH")
    case True
    with assms(3) have "global_queue_' p' = pq_push \<lparr>priority = prio, task = ?e\<rparr> (global_queue_' p)"
      "local_queues_' p' = local_queues_' p" "workers_' p' = workers_' p"
      "futures g' = futures g @ [NotReady]" "h = length (futures g)"
      by (auto simp: submit_rest_def Let_def)
    then show ?thesis by (simp add: mset_envelopes mset_pq_push)
  next
    case False
    let ?k = "unat (counter g inst) mod length (workers_' p)"
    from False assms(3) have "global_queue_' p' = global_queue_' p"
      "local_queues_' p' = (local_queues_' p)[?k := ?e # local_queues_' p ! ?k]"
      "workers_' p' = workers_' p"
      "futures g' = futures g @ [NotReady]" "h = length (futures g)"
      by (auto simp: submit_rest_def Let_def push_def)
    moreover have "?k < length (local_queues_' p)" using assms(1,2) by simp
    from mset_concat_update [OF this, of "?e # local_queues_' p ! ?k"]
    have "mset (concat ((local_queues_' p)[?k := ?e # local_queues_' p ! ?k]))
            = add_mset ?e (mset (concat (local_queues_' p)))"
      by simp
    ultimately show ?thesis by (simp add: mset_envelopes)
  qed
  then show "mset (envelopes p') = add_mset ?e (mset (envelopes p))"
    and "futures g' = futures g @ [NotReady]" and "h = length (futures g)"
    by simp_all
qed

lemma submit_envelopes:
  assumes "\<not> stop_' p" and "\<not> immediate_stop_' p"
    and "length (local_queues_' p) = length (workers_' p)" and "0 < length (workers_' p)"
    and "submit prio inst f g p = (r, g', p')"
  shows "mset (envelopes p') = add_mset \<lparr>shared = length (futures g), bound = f\<rparr> (mset (envelopes p))"
    and "futures g' = futures g @ [NotReady]" and "r = Inr (length (futures g))"
proof -
  from assms(5) obtain h where s: "submit_rest prio inst f g p = (h, g', p')" and r: "r = Inr h"
    using assms(1,2) by (cases rule: submit_cases) simp_all
  from submit_rest_envelopes [OF assms(3,4) s] r
  show "mset (envelopes p') = add_mset \<lparr>shared = length (futures g), bound = f\<rparr> (mset (envelopes p))"
    and "futures g' = futures g @ [NotReady]" and "r = Inr (length (futures g))"
    by simp_all
qed

lemma handles_ok_add:
  assumes "handles_ok w"
    and "mset (envelopes (pool w'))
           = add_mset \<lparr>shared = length (futures (proc w)), bound = f\<rparr> (mset (envelopes (pool w)))"
    and "futures (proc w') = futures (proc w) @ [NotReady]"
  shows "handles_ok w'"
proof -
  let ?e = "\<lparr>shared = length (futures (proc w)), bound = f\<rparr>"
  from assms(1) have old: "\<forall>x \<in> set (envelopes (pool w)).
      shared x < length (futures (proc w)) \<and> futures (proc w) ! shared x = NotReady"
    and d: "distinct (map shared (envelopes (pool w)))"
    by (simp_all add: handles_ok_def list_all_iff)
  from old have fresh: "shared ?e \<notin> shared ` set (envelopes (pool w))" by auto
  from distinct_map_mset_add [OF assms(2), of shared] fresh d
  have d': "distinct (map shared (envelopes (pool w')))" by simp
  have "\<forall>x \<in># mset (envelopes (pool w')).
      shared x < length (futures (proc w')) \<and> futures (proc w') ! shared x = NotReady"
    using old assms(2,3) by (auto simp: nth_append)
  with d' show ?thesis by (simp add: handles_ok_alt)
qed

lemma joined_held: "joined p \<Longrightarrow> concat (map held (workers_' p)) = []"
  by (auto simp: joined_def list_all_iff)

lemma packaged_task_call_ready:
  assumes "shared t < length (futures g)" and "futures g ! shared t = NotReady"
  shows "packaged_task_call t g = Inr (g\<lparr>futures := (futures g)[shared t :=
            (case bound t of Returns v \<Rightarrow> HasValue v | Throws x \<Rightarrow> HasException x)]\<rparr>)"
  using assms by (simp add: packaged_task_call_def)

lemma step_handles_ok:
  assumes "step e w = Some w'" and "handles_ok w"
    and "length (local_queues_' (pool w)) = length (workers_' (pool w))"
    and "0 < length (workers_' (pool w))"
  shows "handles_ok w'"
proof (cases e)
  case (Submit prio inst f)
  from assms(1) [unfolded Submit] obtain r g' p'
    where s: "submit prio inst f (proc w) (pool w) = (r, g', p')"
      and w': "w' = w\<lparr>proc := g', pool := p'\<rparr>"
    by (rule step_SubmitE)
  show ?thesis
  proof (cases "stop_' (pool w) \<or> immediate_stop_' (pool w)")
    case True
    from submit_stopped_pool [OF True s] w' assms(2) show ?thesis by simp
  next
    case False
    then have f: "\<not> stop_' (pool w)" "\<not> immediate_stop_' (pool w)" by simp_all
    note m = submit_envelopes(1,2) [OF f assms(3,4) s]
    from m w' show ?thesis
      by (intro handles_ok_add [OF assms(2), of w' f]) simp_all
  qed
next
  case (SubmitEnter prio inst f)
  from assms(1) [unfolded SubmitEnter] show ?thesis
    by (rule step_SubmitEnterE) (use assms(2) in \<open>simp_all add: handles_ok_def\<close>)
next
  case (SubmitLeave k)
  from assms(1) [unfolded SubmitLeave] obtain prio inst f h g' p'
    where s: "submit_rest prio inst f (proc w) (pool w) = (h, g', p')"
      and w': "w' = w\<lparr>proc := g', pool := p',
                  inflight := take k (inflight w) @ drop (Suc k) (inflight w)\<rparr>"
    by (rule step_SubmitLeaveE)
  note m = submit_rest_envelopes(1,2) [OF assms(3,4) s]
  from m w' show ?thesis
    by (intro handles_ok_add [OF assms(2), of w' f]) simp_all
next
  case (Poll i start)
  from assms(1) [unfolded Poll] obtain r p'
    where i: "i < length (workers_' (pool w))" and at: "workers_' (pool w) ! i = AtTop"
      and g: "get_task i start (pool w) = (r, p')"
      and w': "w' = w\<lparr>pool := p'\<lparr>workers_' := (workers_' p')[i :=
            (case r of Some t \<Rightarrow> Running t
                     | None \<Rightarrow> if leaves_loop p' then Exited else Parked)]\<rparr>\<rparr>"
    by (rule step_PollE)
  from Poll_envelopes [OF i assms(3) at g] w'
  have "mset (envelopes (pool w')) = mset (envelopes (pool w))" by simp
  moreover from w' have "futures (proc w') = futures (proc w)" by simp
  ultimately show ?thesis using assms(2) by (rule handles_ok_same [rotated])
next
  case (Run i)
  from assms(1) [unfolded Run] obtain t g' p'
    where i: "i < length (workers_' (pool w))" and at: "workers_' (pool w) ! i = Running t"
      and wt: "wrapped_task t (proc w) (pool w) = (None, g', p')"
      and w': "w' = w\<lparr>proc := g', pool := p'\<lparr>workers_' := (workers_' p')[i := AtTop]\<rparr>\<rparr>"
    by (rule step_RunE)
  note p' = wrapped_task_frame(4) [OF wt]
  from mset_held_update [OF i, of AtTop] at
  have "add_mset t (mset (concat (map held ((workers_' (pool w))[i := AtTop]))))
          = mset (concat (map held (workers_' (pool w))))"
    by simp
  with w' p' have m: "mset (envelopes (pool w)) = add_mset t (mset (envelopes (pool w')))"
    by (simp add: mset_envelopes)
  from assms(2) have old: "\<forall>x \<in># mset (envelopes (pool w)).
        shared x < length (futures (proc w)) \<and> futures (proc w) ! shared x = NotReady"
      and d: "distinct (map shared (envelopes (pool w)))"
    by (simp_all add: handles_ok_alt)
  from distinct_map_mset_add [OF m, of shared] d
  have d': "distinct (map shared (envelopes (pool w')))"
    and other: "shared t \<notin> shared ` set (envelopes (pool w'))"
    by simp_all
  from old m have t: "shared t < length (futures (proc w))" "futures (proc w) ! shared t = NotReady"
    by simp_all
  from packaged_task_call_ready [OF t] wt
  have g': "g' = (proc w)\<lparr>futures := (futures (proc w))[shared t :=
            (case bound t of Returns v \<Rightarrow> HasValue v | Throws x \<Rightarrow> HasException x)]\<rparr>"
    by (simp add: wrapped_task_def)
  have "\<forall>x \<in># mset (envelopes (pool w')).
        shared x < length (futures g') \<and> futures g' ! shared x = NotReady"
  proof
    fix x
    assume x: "x \<in># mset (envelopes (pool w'))"
    with m have "x \<in># mset (envelopes (pool w))" by simp
    with old have "shared x < length (futures (proc w))" "futures (proc w) ! shared x = NotReady"
      by simp_all
    moreover from x other have "shared x \<noteq> shared t" by (metis imageI set_mset_mset)
    ultimately show "shared x < length (futures g') \<and> futures g' ! shared x = NotReady"
      using g' by simp
  qed
  with d' w' show ?thesis by (simp add: handles_ok_alt)
next
  case (Wake i)
  from assms(1) [unfolded Wake] show ?thesis
  proof (rule step_WakeE)
    assume i: "i < length (workers_' (pool w))" and at: "workers_' (pool w) ! i = Parked"
      and w': "w' = w\<lparr>pool := (pool w)\<lparr>workers_' := (workers_' (pool w))[i :=
            (if leaves_loop (pool w) then Exited else AtTop)]\<rparr>\<rparr>"
    from mset_held_update [OF i, of "if leaves_loop (pool w) then Exited else AtTop"] at
    have "mset (concat (map held ((workers_' (pool w))[i :=
            (if leaves_loop (pool w) then Exited else AtTop)])))
          = mset (concat (map held (workers_' (pool w))))"
      by simp
    with w' have "mset (envelopes (pool w')) = mset (envelopes (pool w))"
      by (simp add: mset_envelopes)
    moreover from w' have "futures (proc w') = futures (proc w)" by simp
    ultimately show ?thesis using assms(2) by (rule handles_ok_same [rotated])
  qed
next
  case WaitAll
  from assms(1) [unfolded WaitAll] have "w' = w" by (rule step_WaitAllE)
  with assms(2) show ?thesis by simp
next
  case ShutdownGraceful
  from assms(1) [unfolded ShutdownGraceful] show ?thesis
    by (rule step_ShutdownGracefulE) (use assms(2) in \<open>simp_all add: handles_ok_def envelopes_def\<close>)
next
  case GracefulJoined
  from assms(1) [unfolded GracefulJoined] show ?thesis
    by (rule step_GracefulJoinedE) (use assms(2) in \<open>simp add: handles_ok_def\<close>)
next
  case ShutdownImmediate
  from assms(1) [unfolded ShutdownImmediate] show ?thesis
    by (rule step_ShutdownImmediateE) (use assms(2) in \<open>simp_all add: handles_ok_def envelopes_def\<close>)
next
  case ImmediateJoined
  from assms(1) [unfolded ImmediateJoined] show ?thesis
  proof (rule step_ImmediateJoinedE)
    assume j: "joined (pool w)"
      and w': "w' = w\<lparr>proc := abandon_all (map task (global_queue_' (pool w)) @
                                     concat (local_queues_' (pool w))) (proc w),
                  pool := shutdown_immediate_end (pool w), lifecycle := Outside\<rparr>"
    then have "envelopes (pool w') = []"
      by (simp add: envelopes_def shutdown_immediate_end_fields concat_replicate_Nil joined_held)
    then show ?thesis by (simp add: handles_ok_def)
  qed
qed

text \<open>Lengths and handles together form an invariant of the running system.\<close>

lemma exec_handles_ok:
  assumes "ThreadPool_ctor n = Inr p0" and "exec evs (boot g p0) = Some w"
  shows "handles_ok w \<and> length (local_queues_' (pool w)) = length (workers_' (pool w)) \<and>
         0 < length (workers_' (pool w))"
proof -
  let ?P = "\<lambda>u. handles_ok u \<and> length (local_queues_' (pool u)) = length (workers_' (pool u)) \<and>
         0 < length (workers_' (pool u))"
  show ?thesis
  proof (rule exec_invariant [OF assms(2), of ?P])
    have "unat n \<noteq> 0"
      using ThreadPool_ctor_fields(11) [OF assms(1)] by (simp add: unat_eq_0)
    then show "?P (boot g p0)"
      using ThreadPool_ctor_fields(1,2,3) [OF assms(1)]
      by (simp add: boot_def handles_ok_def envelopes_def concat_held_replicate concat_replicate_Nil)
  next
    fix e u u'
    assume "?P u" and "step e u = Some u'"
    then show "?P u'"
      using step_shape [of e u u'] step_handles_ok [of e u u'] by simp
  qed
qed

text \<open>
  C9. In every state the program can reach, when a worker runs an envelope whose callable
  throws \<open>msg\<close>: the run ends normally (no exception leaves the envelope, the worker is
  back at the top of its loop), the envelope's shared state (the one its submitter's future
  reads) holds the exception \<open>msg\<close>, the flags, the heap and the deques are as before,
  and the counters have changed by \<open>active_tasks_--\<close>, \<open>pending_tasks_--\<close>,
  \<open>tasks_completed_++\<close> only, which is the pool that running the same envelope with a
  returning callable leaves.
\<close>

theorem envelope_captures_exception:
  assumes "ThreadPool_ctor n = Inr p0" and "exec evs (boot g p0) = Some w"
    and "i < length (workers_' (pool w))" and "workers_' (pool w) ! i = Running e"
    and "bound e = Throws msg"
  shows "\<exists>w'. step (Run i) w = Some w' \<and>
           fst (wrapped_task e (proc w) (pool w)) = None \<and>
           futures (proc w') ! shared e = HasException msg \<and>
           workers_' (pool w') = (workers_' (pool w))[i := AtTop] \<and>
           stop_' (pool w') = stop_' (pool w) \<and>
           immediate_stop_' (pool w') = immediate_stop_' (pool w) \<and>
           global_queue_' (pool w') = global_queue_' (pool w) \<and>
           local_queues_' (pool w') = local_queues_' (pool w) \<and>
           active_tasks_' (pool w') = active_tasks_' (pool w) - 1 \<and>
           pending_tasks_' (pool w') = pending_tasks_' (pool w) - 1 \<and>
           tasks_completed_' (pool w') = tasks_completed_' (pool w) + 1 \<and>
           tasks_stolen_' (pool w') = tasks_stolen_' (pool w) \<and>
           total_tasks_submitted_' (pool w') = total_tasks_submitted_' (pool w) \<and>
           snd (snd (wrapped_task (e\<lparr>bound := Returns v\<rparr>) (proc w) (pool w)))
             = snd (snd (wrapped_task e (proc w) (pool w)))"
proof -
  from exec_handles_ok [OF assms(1,2)] have ok: "handles_ok w" by simp
  have "Running e \<in> set (workers_' (pool w))"
    using assms(3,4) nth_mem [of i "workers_' (pool w)"] by simp
  then have "e \<in> set (concat (map held (workers_' (pool w))))"
    by (auto intro!: bexI [of _ "Running e"])
  then have "e \<in> set (envelopes (pool w))"
    by (simp add: envelopes_def)
  with ok have h: "shared e < length (futures (proc w))" "futures (proc w) ! shared e = NotReady"
    by (simp_all add: handles_ok_def list_all_iff)
  obtain x g' p' where wt: "wrapped_task e (proc w) (pool w) = (x, g', p')"
    by (cases "wrapped_task e (proc w) (pool w)")
  note fr = wrapped_task_frame [OF wt]
  from packaged_task_call_ready [OF h] wt assms(5)
  have g': "g' = (proc w)\<lparr>futures := (futures (proc w))[shared e := HasException msg]\<rparr>"
    by (simp add: wrapped_task_def)
  let ?w' = "w\<lparr>proc := g', pool := p'\<lparr>workers_' := (workers_' p')[i := AtTop]\<rparr>\<rparr>"
  have st: "step (Run i) w = Some ?w'"
    using assms(3,4) wt fr(1) by (simp add: Let_def)
  have same: "snd (snd (wrapped_task (e\<lparr>bound := Returns v\<rparr>) (proc w) (pool w)))
             = snd (snd (wrapped_task e (proc w) (pool w)))"
    by (simp add: wrapped_task_def Let_def)
  have "futures (proc ?w') ! shared e = HasException msg"
    using g' h(1) by simp
  moreover have "fst (wrapped_task e (proc w) (pool w)) = None"
    using wt fr(1) by simp
  moreover have "workers_' (pool ?w') = (workers_' (pool w))[i := AtTop]"
    "stop_' (pool ?w') = stop_' (pool w)"
    "immediate_stop_' (pool ?w') = immediate_stop_' (pool w)"
    "global_queue_' (pool ?w') = global_queue_' (pool w)"
    "local_queues_' (pool ?w') = local_queues_' (pool w)"
    "active_tasks_' (pool ?w') = active_tasks_' (pool w) - 1"
    "pending_tasks_' (pool ?w') = pending_tasks_' (pool w) - 1"
    "tasks_completed_' (pool ?w') = tasks_completed_' (pool w) + 1"
    "tasks_stolen_' (pool ?w') = tasks_stolen_' (pool w)"
    "total_tasks_submitted_' (pool ?w') = total_tasks_submitted_' (pool w)"
    using fr(4) by simp_all
  ultimately show ?thesis using st same by blast
qed

theorem envelope_captures_exception_witness:
  "ThreadPool_ctor 2 = Inr (projr (ThreadPool_ctor 2)) \<and>
   exec [Submit MEDIUM 0 (Throws ''boom''), Poll 0 0]
     (boot process_start (projr (ThreadPool_ctor 2))) \<noteq> None \<and>
   (0 :: nat) < length (workers_' (pool (the (exec [Submit MEDIUM 0 (Throws ''boom''), Poll 0 0]
     (boot process_start (projr (ThreadPool_ctor 2))))))) \<and>
   workers_' (pool (the (exec [Submit MEDIUM 0 (Throws ''boom''), Poll 0 0]
     (boot process_start (projr (ThreadPool_ctor 2)))))) ! 0
     = Running \<lparr>shared = 0, bound = Throws ''boom''\<rparr> \<and>
   bound \<lparr>shared = 0, bound = Throws ''boom''\<rparr> = Throws ''boom'' \<and>
   futures (proc (the (step (Run 0) (the (exec [Submit MEDIUM 0 (Throws ''boom''), Poll 0 0]
     (boot process_start (projr (ThreadPool_ctor 2)))))))) ! 0 = HasException ''boom'' \<and>
   tasks_completed_' (pool (the (step (Run 0) (the (exec [Submit MEDIUM 0 (Throws ''boom''), Poll 0 0]
     (boot process_start (projr (ThreadPool_ctor 2)))))))) = 1"
proof -
  let ?tr = "[Submit MEDIUM 0 (Throws ''boom''), Poll 0 0]"
  let ?w0 = "boot process_start (projr (ThreadPool_ctor 2))"
  have c: "ThreadPool_ctor 2 = Inr (projr (ThreadPool_ctor 2))"
    by code_simp
  have n: "exec ?tr ?w0 \<noteq> None"
    by code_simp
  then have e: "exec ?tr ?w0 = Some (the (exec ?tr ?w0))"
    by simp
  have i: "(0 :: nat) < length (workers_' (pool (the (exec ?tr ?w0))))"
    by code_simp
  have r: "workers_' (pool (the (exec ?tr ?w0))) ! 0 = Running \<lparr>shared = 0, bound = Throws ''boom''\<rparr>"
    by code_simp
  have b: "bound \<lparr>shared = 0, bound = Throws ''boom''\<rparr> = Throws ''boom''"
    by simp
  have t: "tasks_completed_' (pool (the (exec ?tr ?w0))) = 0"
    by code_simp
  from envelope_captures_exception [OF c e i r b]
  obtain w' where "step (Run 0) (the (exec ?tr ?w0)) = Some w'"
    and "futures (proc w') ! shared \<lparr>shared = 0, bound = Throws ''boom''\<rparr> = HasException ''boom''"
    and "tasks_completed_' (pool w') = tasks_completed_' (pool (the (exec ?tr ?w0))) + 1"
    by blast
  with c n i r b t show ?thesis by simp
qed

subsection \<open>The join of an immediate shutdown ends\<close>










end
